theory Spec2Isabelle
  imports Main "HOL-Library.Word" "HOL-Library.AList"
begin

section \<open>The MIME decoder of the temporary mail system\<close>

text \<open>
  A shallow embedding of the mail parser (\<^verbatim>\<open>parseMimeEmail\<close> and the functions it
  calls) and of \<^verbatim>\<open>htmlToText\<close> from \<^verbatim>\<open>utils.js\<close>.

  A JavaScript string is a sequence of code units. The embedding carries the code units
  U+0000 to U+00FF, one \<^typ>\<open>char\<close> each, which covers the 7-bit and Latin-1 text of
  a raw message; \<^verbatim>\<open>charCodeAt\<close> is \<^const>\<open>of_char\<close>. A \<^verbatim>\<open>Uint8Array\<close> is a list of
  8-bit words. A plain object used as a dictionary is an association list read with
  \<^const>\<open>map_of\<close> and written with \<open>assignProperty\<close>, which leaves out the one name
  that such an object does not store. The program reads the dictionaries at fixed names
  only, none of which a plain object inherits. A function that throws returns
  \<^const>\<open>None\<close>.

  \<^verbatim>\<open>TextDecoder\<close> is a facility of the platform with large conversion tables (GBK,
  Big5, ...). It is not modelled: every function that decodes bytes to text takes the
  platform's decoding function \<open>dec\<close> as its first argument, \<open>dec label bytes\<close> being
  \<^verbatim>\<open>new TextDecoder(label).decode(bytes)\<close>. Such a decoder is not fatal, so it never
  throws.
\<close>

subsection \<open>Strings of the language\<close>

type_synonym byte = "8 word"

definition CR :: char where
  "CR = CHR 0x0D"

definition LF :: char where
  "LF = CHR 0x0A"

definition CRLF :: string where
  "CRLF = [CR, LF]"

definition charCode :: "char \<Rightarrow> int" where
  "charCode c = of_char c"

text \<open>The white space of \<^verbatim>\<open>\s\<close> and of \<^verbatim>\<open>trim\<close>: TAB, LF, VT, FF, CR, SP and NBSP
  (the further members lie beyond U+00FF).\<close>

definition isWhiteSpace :: "char \<Rightarrow> bool" where
  "isWhiteSpace c = (charCode c \<in> {9, 10, 11, 12, 13, 32, 160})"

definition trim :: "string \<Rightarrow> string" where
  "trim s = rev (dropWhile isWhiteSpace (rev (dropWhile isWhiteSpace s)))"

text \<open>\<^verbatim>\<open>toLowerCase\<close>: A to Z, and the Latin-1 capitals U+00C0 to U+00DE without the
  multiplication sign, move 32 code units up.\<close>

definition lowerChar :: "char \<Rightarrow> char" where
  "lowerChar c = (let n = charCode c in
     if (65 \<le> n \<and> n \<le> 90) \<or> (192 \<le> n \<and> n \<le> 222 \<and> n \<noteq> 215)
     then char_of (n + 32) else c)"

definition toLowerCase :: "string \<Rightarrow> string" where
  "toLowerCase s = map lowerChar s"

text \<open>\<^verbatim>\<open>toUpperCase\<close> is applied to one captured letter of \<^verbatim>\<open>[BQ]\<close> only.\<close>

definition upperChar :: "char \<Rightarrow> char" where
  "upperChar c = (let n = charCode c in
     if 97 \<le> n \<and> n \<le> 122 then char_of (n - 32) else c)"

text \<open>The case folding of a regular expression with the flag \<^verbatim>\<open>i\<close> and without the
  flag \<^verbatim>\<open>u\<close>: a code unit from U+0080 on is never identified with an ASCII letter,
  so between ASCII patterns and the subject only A to Z and a to z are identified.\<close>

definition foldChar :: "char \<Rightarrow> char" where
  "foldChar c = (let n = charCode c in
     if 65 \<le> n \<and> n \<le> 90 then char_of (n + 32) else c)"

definition startsWith :: "string \<Rightarrow> string \<Rightarrow> bool" where
  "startsWith s p = (take (length p) s = p)"

definition startsWithI :: "string \<Rightarrow> string \<Rightarrow> bool" where
  "startsWithI s p = (map foldChar (take (length p) s) = p)"

definition endsWith :: "string \<Rightarrow> string \<Rightarrow> bool" where
  "endsWith s p = (length p \<le> length s \<and> drop (length s - length p) s = p)"

text \<open>\<^verbatim>\<open>indexOf\<close> gives the position of the first occurrence, or -1.\<close>

fun indexOf :: "string \<Rightarrow> string \<Rightarrow> int" where
  "indexOf [] p = (if p = [] then 0 else -1)"
| "indexOf (c # cs) p =
     (if startsWith (c # cs) p then 0
      else (let r = indexOf cs p in if r < 0 then -1 else r + 1))"

definition includesStr :: "string \<Rightarrow> string \<Rightarrow> bool" where
  "includesStr s p = (indexOf s p \<noteq> -1)"

definition substring :: "string \<Rightarrow> nat \<Rightarrow> nat \<Rightarrow> string" where
  "substring s a b = (let lo = min a b; hi = max a b in take (hi - lo) (drop lo s))"

definition substringFrom :: "string \<Rightarrow> nat \<Rightarrow> string" where
  "substringFrom s a = drop a s"

text \<open>\<^verbatim>\<open>s.split(d)\<close> with a string \<open>d\<close>: the pieces between the occurrences of \<open>d\<close>,
  found from left to right without overlap; an empty \<open>d\<close> gives the single code units.\<close>

fun splitFrom :: "string \<Rightarrow> string \<Rightarrow> string \<Rightarrow> string list" where
  "splitFrom d acc [] = [acc]"
| "splitFrom d acc (c # cs) =
     (if d \<noteq> [] \<and> startsWith (c # cs) d
      then acc # splitFrom d [] (drop (length d - 1) cs)
      else splitFrom d (acc @ [c]) cs)"

definition split :: "string \<Rightarrow> string \<Rightarrow> string list" where
  "split s d = (if d = [] then map (\<lambda>c. [c]) s else splitFrom d [] s)"

text \<open>\<^verbatim>\<open>s.split(/\r?\n/)\<close>: a line ends at LF, and a CR right before that LF belongs to
  the separator.\<close>

fun splitLinesFrom :: "string \<Rightarrow> string \<Rightarrow> string list" where
  "splitLinesFrom acc [] = [acc]"
| "splitLinesFrom acc (c # cs) =
     (if c = CR \<and> startsWith cs [LF] then acc # splitLinesFrom [] (drop 1 cs)
      else if c = LF then acc # splitLinesFrom [] cs
      else splitLinesFrom (acc @ [c]) cs)"

definition splitLines :: "string \<Rightarrow> string list" where
  "splitLines s = splitLinesFrom [] s"

text \<open>\<^verbatim>\<open>s.replace(re, ...)\<close> with a global regular expression. The expression is given
  by its matcher: at the text still to be read it answers with the replacement and the
  text after the match, or with \<^const>\<open>None\<close> where the expression does not match; then
  the code unit at that place is copied and the search goes on behind it. No expression
  of the program matches the empty string, so a match always consumes text.\<close>

fun replaceAll :: "(string \<Rightarrow> (string \<times> string) option) \<Rightarrow> string \<Rightarrow> string" where
  "replaceAll m [] = []"
| "replaceAll m (c # cs) =
     (case m (c # cs) of
        Some (r, rest) \<Rightarrow>
          if length rest < length (c # cs) then r @ replaceAll m rest
          else c # replaceAll m cs
      | None \<Rightarrow> c # replaceAll m cs)"

text \<open>The matcher of a literal pattern.\<close>

definition literal :: "string \<Rightarrow> string \<Rightarrow> string \<Rightarrow> (string \<times> string) option" where
  "literal p r s = (if startsWith s p then Some (r, drop (length p) s) else None)"

subsection \<open>Character sets\<close>

text \<open>\<^verbatim>\<open>getTextDecoder\<close>. A decoder is represented by the label it was made for. Each
  label of \<open>charsetMap\<close> is one that \<^verbatim>\<open>TextDecoder\<close> accepts; the \<^verbatim>\<open>catch\<close> branch
  answers with the decoder of utf-8, as the missing key does.\<close>

definition charsetMap :: "(string \<times> string) list" where
  "charsetMap =
    [(''gbk'', ''gbk''),
     (''gb2312'', ''gbk''),
     (''gb18030'', ''gb18030''),
     (''big5'', ''big5''),
     (''iso88591'', ''iso-8859-1''),
     (''iso-8859-1'', ''iso-8859-1''),
     (''windows1252'', ''windows-1252''),
     (''windows-1252'', ''windows-1252''),
     (''utf8'', ''utf-8''),
     (''utf-8'', ''utf-8'')]"

text \<open>The class \<^verbatim>\<open>[a-z0-9-]\<close>, whose complement is deleted from the label.\<close>

definition labelChar :: "char \<Rightarrow> bool" where
  "labelChar c = (let n = charCode c in
     (97 \<le> n \<and> n \<le> 122) \<or> (48 \<le> n \<and> n \<le> 57) \<or> c = CHR ''-'')"

definition normalizedCharset :: "string \<Rightarrow> string" where
  "normalizedCharset charset =
     filter labelChar (toLowerCase (if charset = [] then ''utf-8'' else charset))"

definition getTextDecoder :: "string \<Rightarrow> string" where
  "getTextDecoder charset =
     (case map_of charsetMap (normalizedCharset charset) of
        Some decoderCharset \<Rightarrow> decoderCharset
      | None \<Rightarrow> ''utf-8'')"

text \<open>The lookup in the words of the specification: the recognised labels and what
  each resolves to, with utf-8 for every other label.\<close>

definition recognizedCharset :: "string \<Rightarrow> string" where
  "recognizedCharset n =
     (if n = ''gbk'' \<or> n = ''gb2312'' then ''gbk''
      else if n = ''gb18030'' then ''gb18030''
      else if n = ''big5'' then ''big5''
      else if n = ''iso88591'' \<or> n = ''iso-8859-1'' then ''iso-8859-1''
      else if n = ''windows1252'' \<or> n = ''windows-1252'' then ''windows-1252''
      else ''utf-8'')"

subsection \<open>Transfer encodings\<close>

text \<open>\<^verbatim>\<open>atob\<close>, the forgiving base64 decoder of the platform: ASCII white space is
  removed, one or two closing \<^verbatim>\<open>=\<close> are removed from a text whose length is a multiple
  of four, a length of one more than a multiple of four and a code unit outside the
  alphabet are errors, and every six bits of the rest fill the bytes from the left.
  \<open>sextet\<close> is the place of a code unit in the alphabet A to Z, a to z, 0 to 9, \<^verbatim>\<open>+\<close>,
  \<^verbatim>\<open>/\<close>.\<close>

definition sextet :: "char \<Rightarrow> int option" where
  "sextet c = (let n = charCode c in
     if 65 \<le> n \<and> n \<le> 90 then Some (n - 65)
     else if 97 \<le> n \<and> n \<le> 122 then Some (n - 71)
     else if 48 \<le> n \<and> n \<le> 57 then Some (n + 4)
     else if c = CHR ''+'' then Some 62
     else if c = CHR ''/'' then Some 63
     else None)"

definition isAsciiWhitespace :: "char \<Rightarrow> bool" where
  "isAsciiWhitespace c = (charCode c \<in> {9, 10, 12, 13, 32})"

definition stripPadding :: "string \<Rightarrow> string" where
  "stripPadding d =
     (if endsWith d ''=='' then take (length d - 2) d
      else if endsWith d ''='' then take (length d - 1) d
      else d)"

fun sextetBytes :: "int list \<Rightarrow> int list" where
  "sextetBytes (a # b # c # d # rest) =
     (let n = ((a * 64 + b) * 64 + c) * 64 + d
      in [n div 65536, n div 256 mod 256, n mod 256] @ sextetBytes rest)"
| "sextetBytes [a, b, c] =
     (let n = ((a * 64 + b) * 64 + c) div 4 in [n div 256, n mod 256])"
| "sextetBytes [a, b] = [(a * 64 + b) div 16]"
| "sextetBytes _ = []"

definition atob :: "string \<Rightarrow> string option" where
  "atob dat =
     (let d1 = filter (\<lambda>c. \<not> isAsciiWhitespace c) dat;
          d2 = (if length d1 mod 4 = 0 then stripPadding d1 else d1)
      in if length d2 mod 4 = 1 then None
         else if \<exists>c \<in> set d2. sextet c = None then None
         else Some (map char_of (sextetBytes (map (\<lambda>c. the (sextet c)) d2))))"

text \<open>\<^verbatim>\<open>new TextEncoder().encode(s)\<close>, UTF-8: a code unit below U+0080 is one byte, one
  from U+0080 to U+00FF is two.\<close>

definition encodeUnit :: "char \<Rightarrow> byte list" where
  "encodeUnit c = (let n = charCode c in
     if n < 128 then [of_int n] else [of_int (192 + n div 64), of_int (128 + n mod 64)])"

definition textEncode :: "string \<Rightarrow> byte list" where
  "textEncode s = concat (map encodeUnit s)"

text \<open>The loop that copies the code units of the binary string into a
  \<^verbatim>\<open>Uint8Array\<close>.\<close>

definition binaryBytes :: "string \<Rightarrow> byte list" where
  "binaryBytes binary = map (\<lambda>c. of_int (charCode c)) binary"

definition removeWhiteSpace :: "string \<Rightarrow> string" where
  "removeWhiteSpace s = filter (\<lambda>c. \<not> isWhiteSpace c) s"

definition decodeBase64 :: "(string \<Rightarrow> byte list \<Rightarrow> string) \<Rightarrow> string \<Rightarrow> string \<Rightarrow> string" where
  "decodeBase64 dec str charset =
     (case atob (removeWhiteSpace str) of
        Some binary \<Rightarrow> dec (getTextDecoder charset) (binaryBytes binary)
      | None \<Rightarrow> str)"

definition decodeBase64ToBinary :: "string \<Rightarrow> byte list" where
  "decodeBase64ToBinary str =
     (case atob (removeWhiteSpace str) of
        Some binary \<Rightarrow> binaryBytes binary
      | None \<Rightarrow> textEncode str)"

text \<open>The soft line breaks, \<^verbatim>\<open>/=\r?\n/g\<close>.\<close>

definition softBreak :: "string \<Rightarrow> (string \<times> string) option" where
  "softBreak s =
     (if startsWith s ([CHR ''=''] @ CRLF) then Some ([], drop 3 s)
      else if startsWith s [CHR ''='', LF] then Some ([], drop 2 s)
      else None)"

definition isHexDigit :: "char \<Rightarrow> bool" where
  "isHexDigit c = (let n = charCode c in
     (48 \<le> n \<and> n \<le> 57) \<or> (65 \<le> n \<and> n \<le> 70) \<or> (97 \<le> n \<and> n \<le> 102))"

definition hexValue :: "char \<Rightarrow> int" where
  "hexValue c = (let n = charCode c in
     if 48 \<le> n \<and> n \<le> 57 then n - 48
     else if 65 \<le> n \<and> n \<le> 70 then n - 55
     else n - 87)"

text \<open>\<^verbatim>\<open>/^[0-9A-Fa-f]{2}$/.test(hex)\<close> and \<^verbatim>\<open>parseInt(hex, 16)\<close>.\<close>

definition isHexPair :: "string \<Rightarrow> bool" where
  "isHexPair hex = (length hex = 2 \<and> (\<forall>c \<in> set hex. isHexDigit c))"

definition parseHexPair :: "string \<Rightarrow> int" where
  "parseHexPair hex = 16 * hexValue (hex ! 0) + hexValue (hex ! 1)"

text \<open>The \<^verbatim>\<open>while\<close> loop of \<^verbatim>\<open>decodeQuotedPrintable\<close>, with its index \<open>i\<close> and the
  bytes collected so far.\<close>

function qpLoop :: "string \<Rightarrow> nat \<Rightarrow> byte list \<Rightarrow> byte list" where
  "qpLoop cleaned i bytes =
     (if i < length cleaned then
        (if cleaned ! i = CHR ''='' \<and> i + 2 < length cleaned
            \<and> isHexPair (substring cleaned (i + 1) (i + 3))
         then qpLoop cleaned (i + 3)
                (bytes @ [of_int (parseHexPair (substring cleaned (i + 1) (i + 3)))])
         else qpLoop cleaned (i + 1) (bytes @ [of_int (charCode (cleaned ! i))]))
      else bytes)"
  by pat_completeness auto
termination
  by (relation "measure (\<lambda>(cleaned, i, bytes). length cleaned - i)") auto

definition decodeQuotedPrintable ::
  "(string \<Rightarrow> byte list \<Rightarrow> string) \<Rightarrow> string \<Rightarrow> string \<Rightarrow> string" where
  "decodeQuotedPrintable dec str charset =
     (let cleaned = replaceAll softBreak str
      in dec (getTextDecoder charset) (qpLoop cleaned 0 []))"

text \<open>The quoted-printable scan in the words of the specification: an \<^verbatim>\<open>=\<close> followed
  by two hexadecimal digits emits the byte they denote, any other character emits its
  own code unit.\<close>

fun qpScan :: "string \<Rightarrow> byte list" where
  "qpScan (c # h1 # h2 # rest) =
     (if c = CHR ''='' \<and> isHexDigit h1 \<and> isHexDigit h2
      then of_int (16 * hexValue h1 + hexValue h2) # qpScan rest
      else of_int (charCode c) # qpScan (h1 # h2 # rest))"
| "qpScan (c # rest) = of_int (charCode c) # qpScan rest"
| "qpScan [] = []"

subsection \<open>Encoded words in header values\<close>

text \<open>\<^verbatim>\<open>/=\?([^?]+)\?([BQ])\?([^?]*)\?=/gi\<close> at the head of the text: the character set,
  the letter of the encoding, the encoded text, and the text behind the token.\<close>

definition notQuestion :: "char \<Rightarrow> bool" where
  "notQuestion c = (c \<noteq> CHR ''?'')"

definition encodedWord :: "string \<Rightarrow> (string \<times> string \<times> string \<times> string) option" where
  "encodedWord s =
     (if startsWith s ''=?'' then
        (let charset = takeWhile notQuestion (drop 2 s)
         in if charset = [] then None
            else
              (case dropWhile notQuestion (drop 2 s) of
                 q1 # e # q2 # r2 \<Rightarrow>
                   if q1 = CHR ''?'' \<and> foldChar e \<in> set ''bq'' \<and> q2 = CHR ''?''
                      \<and> startsWith (dropWhile notQuestion r2) ''?=''
                   then Some (charset, [e], takeWhile notQuestion r2,
                              drop 2 (dropWhile notQuestion r2))
                   else None
               | _ \<Rightarrow> None))
      else None)"

text \<open>The function given to \<^verbatim>\<open>replace\<close>. Neither decoder throws, they catch their
  own errors, so the \<^verbatim>\<open>catch\<close> of this function has nothing to catch; \<open>match\<close> is
  returned for an encoding that is neither B nor Q.\<close>

definition decodeWord ::
  "(string \<Rightarrow> byte list \<Rightarrow> string) \<Rightarrow> string \<Rightarrow> string \<Rightarrow> string \<Rightarrow> string \<Rightarrow> string" where
  "decodeWord dec match charset encoding text =
     (if map upperChar encoding = ''B'' then decodeBase64 dec text charset
      else if map upperChar encoding = ''Q''
      then decodeQuotedPrintable dec
             (map (\<lambda>c. if c = CHR ''_'' then CHR '' '' else c) text) charset
      else match)"

definition mimeRegex :: "(string \<Rightarrow> byte list \<Rightarrow> string) \<Rightarrow> string \<Rightarrow> (string \<times> string) option" where
  "mimeRegex dec s =
     (case encodedWord s of
        None \<Rightarrow> None
      | Some (charset, encoding, text, rest) \<Rightarrow>
          Some (decodeWord dec (take (length s - length rest) s) charset encoding text, rest))"

definition decodeMimeHeader :: "(string \<Rightarrow> byte list \<Rightarrow> string) \<Rightarrow> string \<Rightarrow> string" where
  "decodeMimeHeader dec str = (if str = [] then [] else replaceAll (mimeRegex dec) str)"

subsection \<open>Parameters of a header value\<close>

text \<open>The three expressions \<^verbatim>\<open>/boundary=["']?([^"';\s]+)["']?/i\<close>,
  \<^verbatim>\<open>/charset=["']?([^"';\s]+)["']?/i\<close> and \<^verbatim>\<open>/filename=["']?([^"';\r\n]+)["']?/i\<close>
  differ in the name and in the class of the captured group. A quote after the name is
  skipped; the group is the longest run of the class, and it must not be empty. (When
  the run after a skipped quote is empty, the expression cannot do without the quote
  either, since a quote is outside the class.) \<^verbatim>\<open>match\<close> takes the leftmost place.\<close>

definition isQuote :: "char \<Rightarrow> bool" where
  "isQuote c = (c = CHR 0x22 \<or> c = CHR 0x27)"

definition valueChar :: "char \<Rightarrow> bool" where
  "valueChar c = (\<not> isQuote c \<and> c \<noteq> CHR '';'' \<and> \<not> isWhiteSpace c)"

definition filenameChar :: "char \<Rightarrow> bool" where
  "filenameChar c = (\<not> isQuote c \<and> c \<noteq> CHR '';'' \<and> c \<noteq> CR \<and> c \<noteq> LF)"

definition paramAt :: "string \<Rightarrow> (char \<Rightarrow> bool) \<Rightarrow> string \<Rightarrow> string option" where
  "paramAt name ok s =
     (if startsWithI s name then
        (let v = takeWhile ok
                   (case drop (length name) s of
                      [] \<Rightarrow> []
                    | q # r \<Rightarrow> if isQuote q then r else q # r)
         in if v = [] then None else Some v)
      else None)"

fun paramMatch :: "string \<Rightarrow> (char \<Rightarrow> bool) \<Rightarrow> string \<Rightarrow> string option" where
  "paramMatch name ok [] = None"
| "paramMatch name ok (c # cs) =
     (case paramAt name ok (c # cs) of
        Some v \<Rightarrow> Some v
      | None \<Rightarrow> paramMatch name ok cs)"

text \<open>\<^verbatim>\<open>extractCharset\<close>; the argument is \<^const>\<open>None\<close> for \<^verbatim>\<open>undefined\<close>.\<close>

definition extractCharset :: "string option \<Rightarrow> string" where
  "extractCharset contentType =
     (case contentType of
        None \<Rightarrow> ''utf-8''
      | Some ct \<Rightarrow>
          if ct = [] then ''utf-8''
          else (case paramMatch ''charset='' valueChar ct of
                  Some m \<Rightarrow> m
                | None \<Rightarrow> ''utf-8''))"

subsection \<open>Headers\<close>

text \<open>\<^verbatim>\<open>obj[name] = value\<close> with a string for the value, on an object made by
  \<^verbatim>\<open>{}\<close>. The name \<^verbatim>\<open>__proto__\<close> reaches the setter that the object inherits, which
  ignores a value that is neither an object nor null, so nothing is stored; every other
  name becomes a property of the object, or has its value replaced.\<close>

definition assignProperty ::
  "(string \<times> string) list \<Rightarrow> string \<Rightarrow> string \<Rightarrow> (string \<times> string) list" where
  "assignProperty obj name v =
     (if name = ''__proto__'' then obj else AList.update name v obj)"

text \<open>\<^verbatim>\<open>if (currentKey) headers[currentKey.toLowerCase()] = decodeMimeHeader(currentValue)\<close>\<close>

definition storeHeader ::
  "(string \<Rightarrow> byte list \<Rightarrow> string) \<Rightarrow> (string \<times> string) list \<Rightarrow> string \<Rightarrow> string
     \<Rightarrow> (string \<times> string) list" where
  "storeHeader dec hs currentKey currentValue =
     (if currentKey \<noteq> []
      then assignProperty hs (toLowerCase currentKey) (decodeMimeHeader dec currentValue)
      else hs)"

text \<open>One turn of the loop over the lines, on the dictionary, \<open>currentKey\<close> and
  \<open>currentValue\<close>.\<close>

definition headerLine ::
  "(string \<Rightarrow> byte list \<Rightarrow> string) \<Rightarrow> string
     \<Rightarrow> (string \<times> string) list \<times> string \<times> string
     \<Rightarrow> (string \<times> string) list \<times> string \<times> string" where
  "headerLine dec line st =
     (case st of (hs, currentKey, currentValue) \<Rightarrow>
        if line \<noteq> [] \<and> isWhiteSpace (hd line)
        then (hs, currentKey, currentValue @ '' '' @ trim line)
        else
          (let hs' = storeHeader dec hs currentKey currentValue;
               colonIndex = indexOf line '':''
           in if colonIndex > 0
              then (hs', trim (substring line 0 (nat colonIndex)),
                         trim (substringFrom line (nat colonIndex + 1)))
              else (hs', currentKey, currentValue)))"

definition parseHeaders ::
  "(string \<Rightarrow> byte list \<Rightarrow> string) \<Rightarrow> string \<Rightarrow> (string \<times> string) list" where
  "parseHeaders dec headersRaw =
     (case fold (headerLine dec) (splitLines headersRaw) ([], [], []) of
        (hs, currentKey, currentValue) \<Rightarrow> storeHeader dec hs currentKey currentValue)"

text \<open>\<^verbatim>\<open>headers[name] || dflt\<close>: the default stands in for a missing and for an empty
  value.\<close>

definition headerOr :: "(string \<times> string) list \<Rightarrow> string \<Rightarrow> string \<Rightarrow> string" where
  "headerOr hs name dflt =
     (case map_of hs name of
        None \<Rightarrow> dflt
      | Some v \<Rightarrow> if v = [] then dflt else v)"

subsection \<open>Multipart bodies\<close>

record mimePart =
  partHeaders :: "(string \<times> string) list"
  partBody :: string

text \<open>\<^verbatim>\<open>.replace(/\r\n$/, "")\<close>\<close>

definition dropFinalCRLF :: "string \<Rightarrow> string" where
  "dropFinalCRLF s = (if endsWith s CRLF then take (length s - 2) s else s)"

text \<open>The body of the loop of \<^verbatim>\<open>parseMultipart\<close>; \<^const>\<open>None\<close> is \<^verbatim>\<open>continue\<close>.\<close>

definition parseSection :: "(string \<Rightarrow> byte list \<Rightarrow> string) \<Rightarrow> string \<Rightarrow> mimePart option" where
  "parseSection dec raw =
     (let section = trim raw
      in if startsWith section ''--'' \<or> section = [] then None
         else
           (let headerEndIndex = indexOf section (CRLF @ CRLF)
            in if headerEndIndex = -1 then None
               else Some \<lparr>partHeaders =
                            parseHeaders dec (substring section 0 (nat headerEndIndex)),
                          partBody =
                            dropFinalCRLF (substringFrom section (nat headerEndIndex + 4))\<rparr>))"

definition parseMultipart ::
  "(string \<Rightarrow> byte list \<Rightarrow> string) \<Rightarrow> string \<Rightarrow> string \<Rightarrow> mimePart list" where
  "parseMultipart dec body boundary =
     (let boundaryDelimiter = ''--'' @ boundary;
          sections = split body boundaryDelimiter
      in List.map_filter (parseSection dec) (drop 1 sections))"

definition decodeContent ::
  "(string \<Rightarrow> byte list \<Rightarrow> string) \<Rightarrow> string \<Rightarrow> string \<Rightarrow> string \<Rightarrow> string" where
  "decodeContent dec content transferEncoding charset =
     (if content = [] then []
      else
        (let encoding = toLowerCase transferEncoding
         in if includesStr encoding ''base64'' then decodeBase64 dec content charset
            else if includesStr encoding ''quoted-printable''
            then decodeQuotedPrintable dec content charset
            else content))"

subsection \<open>The body of a message\<close>

record attachment =
  att_filename :: string
  att_contentType :: string
  att_content :: "byte list"
  att_size :: nat

record bodyResult =
  textContent :: string
  htmlContent :: string
  attachments :: "attachment list"

text \<open>The attachment that the loop of \<^verbatim>\<open>parseBody\<close> pushes for a part whose
  disposition contains \<^verbatim>\<open>attachment\<close>.\<close>

definition attachmentOf ::
  "(string \<Rightarrow> byte list \<Rightarrow> string) \<Rightarrow> mimePart \<Rightarrow> string \<Rightarrow> string \<Rightarrow> string \<Rightarrow> attachment" where
  "attachmentOf dec part disposition partType transferEncoding =
     (let filenameMatch = paramMatch ''filename='' filenameChar disposition;
          encoding = toLowerCase transferEncoding;
          content =
            (if includesStr encoding ''base64'' then decodeBase64ToBinary (partBody part)
             else if includesStr encoding ''quoted-printable''
             then textEncode (decodeQuotedPrintable dec (partBody part) ''utf-8'')
             else textEncode (partBody part))
      in \<lparr>att_filename =
            decodeMimeHeader dec
              (case filenameMatch of Some f \<Rightarrow> f | None \<Rightarrow> ''attachment''),
          att_contentType =
            trim (case split partType '';'' of [] \<Rightarrow> [] | t # ts \<Rightarrow> t),
          att_content = content,
          att_size = length content\<rparr>)"

text \<open>The inner loop, over the parts of a nested multipart.\<close>

definition nestedPart ::
  "(string \<Rightarrow> byte list \<Rightarrow> string) \<Rightarrow> mimePart \<Rightarrow> bodyResult \<Rightarrow> bodyResult" where
  "nestedPart dec nested r =
     (let nestedType = toLowerCase (headerOr (partHeaders nested) ''content-type'' []);
          nestedEncoding = headerOr (partHeaders nested) ''content-transfer-encoding'' [];
          nestedCharset = extractCharset (map_of (partHeaders nested) ''content-type'')
      in if includesStr nestedType ''text/html''
         then r\<lparr>htmlContent := decodeContent dec (partBody nested) nestedEncoding nestedCharset\<rparr>
         else if includesStr nestedType ''text/plain''
         then r\<lparr>textContent := decodeContent dec (partBody nested) nestedEncoding nestedCharset\<rparr>
         else r)"

text \<open>The outer loop, over the parts of the message.\<close>

definition bodyPart ::
  "(string \<Rightarrow> byte list \<Rightarrow> string) \<Rightarrow> mimePart \<Rightarrow> bodyResult \<Rightarrow> bodyResult" where
  "bodyPart dec part r =
     (let partType = toLowerCase (headerOr (partHeaders part) ''content-type'' []);
          disposition = toLowerCase (headerOr (partHeaders part) ''content-disposition'' []);
          transferEncoding = headerOr (partHeaders part) ''content-transfer-encoding'' []
      in if includesStr disposition ''attachment''
         then r\<lparr>attachments :=
                  attachments r @ [attachmentOf dec part disposition partType transferEncoding]\<rparr>
         else if includesStr partType ''text/html''
         then r\<lparr>htmlContent :=
                  decodeContent dec (partBody part) transferEncoding
                    (extractCharset (map_of (partHeaders part) ''content-type''))\<rparr>
         else if includesStr partType ''text/plain''
         then r\<lparr>textContent :=
                  decodeContent dec (partBody part) transferEncoding
                    (extractCharset (map_of (partHeaders part) ''content-type''))\<rparr>
         else if includesStr partType ''multipart''
         then (case paramMatch ''boundary='' valueChar partType of
                 Some nestedBoundary \<Rightarrow>
                   fold (nestedPart dec) (parseMultipart dec (partBody part) nestedBoundary) r
               | None \<Rightarrow> r)
         else r)"

definition parseBody ::
  "(string \<Rightarrow> byte list \<Rightarrow> string) \<Rightarrow> string \<Rightarrow> string \<Rightarrow> string \<Rightarrow> bodyResult" where
  "parseBody dec bodyRaw contentType transferEncoding =
     (let r = \<lparr>textContent = [], htmlContent = [], attachments = []\<rparr>;
          contentTypeLower = toLowerCase contentType
      in if includesStr contentTypeLower ''multipart''
         then (case paramMatch ''boundary='' valueChar contentType of
                 Some boundary \<Rightarrow>
                   fold (bodyPart dec) (parseMultipart dec bodyRaw boundary) r
               | None \<Rightarrow> r)
         else if includesStr contentTypeLower ''text/html''
         then r\<lparr>htmlContent :=
                  decodeContent dec bodyRaw transferEncoding (extractCharset (Some contentType))\<rparr>
         else r\<lparr>textContent :=
                  decodeContent dec bodyRaw transferEncoding (extractCharset (Some contentType))\<rparr>)"

subsection \<open>The message\<close>

text \<open>The first lines of \<^verbatim>\<open>parseMimeEmail\<close>: the header block and the body block.\<close>

definition headersRawOf :: "string \<Rightarrow> string" where
  "headersRawOf raw =
     (let headerEndIndex = indexOf raw (CRLF @ CRLF)
      in if headerEndIndex > 0 then substring raw 0 (nat headerEndIndex) else raw)"

definition bodyRawOf :: "string \<Rightarrow> string" where
  "bodyRawOf raw =
     (let headerEndIndex = indexOf raw (CRLF @ CRLF)
      in if headerEndIndex > 0 then substringFrom raw (nat headerEndIndex + 4) else [])"

record parsedEmail = bodyResult +
  headers :: "(string \<times> string) list"
  rawEmail :: string

definition parseMimeEmail :: "(string \<Rightarrow> byte list \<Rightarrow> string) \<Rightarrow> string \<Rightarrow> parsedEmail" where
  "parseMimeEmail dec raw =
     (let hs = parseHeaders dec (headersRawOf raw);
          contentType = headerOr hs ''content-type'' ''text/plain'';
          transferEncoding = headerOr hs ''content-transfer-encoding'' [];
          r = parseBody dec (bodyRawOf raw) contentType transferEncoding
      in \<lparr>textContent = textContent r, htmlContent = htmlContent r,
          attachments = attachments r, headers = hs, rawEmail = raw\<rparr>)"

subsection \<open>HTML to text\<close>

text \<open>\<^verbatim>\<open>/<style[^>]*>[\s\S]*?<\/style>/gi\<close> and the same for \<^verbatim>\<open>script\<close>: the opening
  tag runs to the first \<^verbatim>\<open>>\<close>, the block to the first closing tag behind it.\<close>

definition blockMatch :: "string \<Rightarrow> string \<Rightarrow> (string \<times> string) option" where
  "blockMatch name s =
     (if startsWithI s (''<'' @ name) then
        (case dropWhile (\<lambda>c. c \<noteq> CHR ''>'') (drop (length name + 1) s) of
           [] \<Rightarrow> None
         | gt # inner \<Rightarrow>
             (let e = indexOf (map foldChar inner) (''</'' @ name @ ''>'')
              in if e < 0 then None
                 else Some ([], drop (nat e + length name + 3) inner)))
      else None)"

text \<open>\<^verbatim>\<open>/<[^>]+>/g\<close>, replaced by one space.\<close>

definition tagMatch :: "string \<Rightarrow> (string \<times> string) option" where
  "tagMatch s =
     (case s of
        [] \<Rightarrow> None
      | c # r \<Rightarrow>
          if c = CHR ''<'' \<and> takeWhile (\<lambda>c. c \<noteq> CHR ''>'') r \<noteq> []
             \<and> dropWhile (\<lambda>c. c \<noteq> CHR ''>'') r \<noteq> []
          then Some ('' '', drop 1 (dropWhile (\<lambda>c. c \<noteq> CHR ''>'') r))
          else None)"

text \<open>\<^verbatim>\<open>/\s+/g\<close>, replaced by one space.\<close>

definition spaceRun :: "string \<Rightarrow> (string \<times> string) option" where
  "spaceRun s =
     (if takeWhile isWhiteSpace s \<noteq> [] then Some ('' '', dropWhile isWhiteSpace s)
      else None)"

definition htmlToText :: "string \<Rightarrow> string" where
  "htmlToText html =
     (if html = [] then []
      else trim
        (replaceAll spaceRun
        (replaceAll (literal ''&quot;'' [CHR 0x22])
        (replaceAll (literal ''&gt;'' ''>'')
        (replaceAll (literal ''&lt;'' ''<'')
        (replaceAll (literal ''&amp;'' ''&'')
        (replaceAll (literal ''&nbsp;'' '' '')
        (replaceAll tagMatch
        (replaceAll (blockMatch ''script'')
        (replaceAll (blockMatch ''style'') html))))))))))"

subsection \<open>The header fields, in the words of the specification\<close>







subsection \<open>Base64 encoding, in the words of the standard\<close>

text \<open>The encoder that \<^verbatim>\<open>atob\<close> undoes (RFC 4648): every three bytes are written as
  four characters of the alphabet, six bits each; two bytes that remain are written as
  three characters and one that remains as two; \<^verbatim>\<open>=\<close> fills the last group of
  four.\<close>

definition b64char :: "int \<Rightarrow> char" where
  "b64char n =
     (if n < 26 then char_of (n + 65)
      else if n < 52 then char_of (n + 71)
      else if n < 62 then char_of (n - 4)
      else if n = 62 then CHR ''+''
      else CHR ''/'')"

fun base64Groups :: "byte list \<Rightarrow> string" where
  "base64Groups (a # b # c # rest) =
     (let n = (uint a * 256 + uint b) * 256 + uint c
      in [b64char (n div 262144), b64char (n div 4096 mod 64),
          b64char (n div 64 mod 64), b64char (n mod 64)]) @ base64Groups rest"
| "base64Groups [a, b] =
     (let n = (uint a * 256 + uint b) * 4
      in [b64char (n div 4096), b64char (n div 64 mod 64), b64char (n mod 64)])"
| "base64Groups [a] =
     (let n = uint a * 16 in [b64char (n div 64), b64char (n mod 64)])"
| "base64Groups [] = []"

definition base64Encode :: "byte list \<Rightarrow> string" where
  "base64Encode bytes =
     base64Groups bytes @ replicate ((3 - length bytes mod 3) mod 3) (CHR ''='')"

text \<open>A part that is an attachment in base64, with a file name in capitals.\<close>

definition attachmentPartExample :: mimePart where
  "attachmentPartExample =
     \<lparr>partHeaders =
        [(''content-disposition'', ''attachment; filename=Report.PDF''),
         (''content-transfer-encoding'', ''Base64'')],
      partBody = ''QUJD'' @ CRLF @ ''RA==''\<rparr>"

definition noResult :: bodyResult where
  "noResult = \<lparr>textContent = [], htmlContent = [], attachments = []\<rparr>"

subsection \<open>A decoder for the examples\<close>

text \<open>The examples below run the parser with a decoder that turns every byte into the
  code unit of the same number, which is what the decoder of each label of
  \<open>charsetMap\<close> does with the bytes of ASCII text.\<close>

definition plainDecoder :: "string \<Rightarrow> byte list \<Rightarrow> string" where
  "plainDecoder label bytes = map (\<lambda>b. char_of (uint b)) bytes"

text \<open>A multipart body with one part, whose text holds the delimiter in the middle of
  a line.\<close>

definition boundaryExample :: string where
  "boundaryExample =
     ''--xyz'' @ CRLF @ ''Content-Type: text/plain'' @ CRLF @ CRLF
     @ ''foo--xyzbar'' @ CRLF @ ''--xyz--''"

text \<open>A multipart message whose Content-Type names no boundary.\<close>

definition noBoundaryExample :: string where
  "noBoundaryExample =
     ''Content-Type: multipart/mixed'' @ CRLF @ CRLF
     @ ''--b'' @ CRLF @ ''Content-Type: text/plain'' @ CRLF @ CRLF @ ''hello'' @ CRLF @ ''--b--''"

text \<open>A multipart body with one attachment. The file name in its Content-Disposition
  begins with an encoded word for \<^verbatim>\<open>=\<close>; once this word is decoded, the text behind
  it makes a second encoded word.\<close>

definition encodedFilenameExample :: string where
  "encodedFilenameExample =
     ''--xyz'' @ CRLF
     @ ''Content-Disposition: attachment; filename='' @ [CHR 0x22]
     @ ''=?utf-8?q?=3D?=?utf-8?q?=41?=.TXT'' @ [CHR 0x22] @ CRLF
     @ ''Content-Transfer-Encoding: base64'' @ CRLF @ CRLF
     @ ''QUJD'' @ CRLF @ ''RA=='' @ CRLF
     @ ''--xyz--''"

section \<open>Properties\<close>

subsection \<open>Searching in strings\<close>

lemma startsWith_Nil [simp]: "startsWith s []"
  by (simp add: startsWith_def)

lemma startsWith_Nil_left [simp]: "startsWith [] p \<longleftrightarrow> p = []"
  by (auto simp: startsWith_def)

lemma startsWith_append: "startsWith s p \<longleftrightarrow> (\<exists>t. s = p @ t)"
  unfolding startsWith_def
  by (metis append_eq_conv_conj append_take_drop_id)

lemma indexOf_ge: "- 1 \<le> indexOf s p"
  by (induction s) (auto simp: Let_def)

lemma indexOf_le: "indexOf s p \<le> int (length s)"
  by (induction s) (auto simp: Let_def)

lemma indexOf_found:
  "0 \<le> indexOf s p \<Longrightarrow> startsWith (drop (nat (indexOf s p)) s) p"
proof (induction s)
  case Nil
  then show ?case by (auto split: if_splits)
next
  case (Cons c cs)
  show ?case
  proof (cases "startsWith (c # cs) p")
    case True
    then show ?thesis by simp
  next
    case False
    with Cons.prems have nn: "0 \<le> indexOf cs p"
      by (auto simp: Let_def split: if_splits)
    with False have "indexOf (c # cs) p = indexOf cs p + 1"
      by (simp add: Let_def)
    moreover have "nat (indexOf cs p + 1) = Suc (nat (indexOf cs p))"
      using nn by simp
    ultimately show ?thesis using Cons.IH [OF nn] by simp
  qed
qed

lemma indexOf_first:
  "0 \<le> indexOf s p \<Longrightarrow> k < nat (indexOf s p) \<Longrightarrow> \<not> startsWith (drop k s) p"
proof (induction s arbitrary: k)
  case Nil
  then show ?case by (auto split: if_splits)
next
  case (Cons c cs)
  show ?case
  proof (cases "startsWith (c # cs) p")
    case True
    with Cons.prems show ?thesis by simp
  next
    case False
    with Cons.prems have nn: "0 \<le> indexOf cs p"
      by (auto simp: Let_def split: if_splits)
    with False have eq: "indexOf (c # cs) p = indexOf cs p + 1"
      by (simp add: Let_def)
    show ?thesis
    proof (cases k)
      case 0
      with False show ?thesis by simp
    next
      case (Suc j)
      with Cons.prems eq nn have "j < nat (indexOf cs p)" by simp
      from Cons.IH [OF nn this] Suc show ?thesis by simp
    qed
  qed
qed

lemma indexOf_none:
  "indexOf s p < 0 \<Longrightarrow> \<not> startsWith (drop k s) p"
proof (induction s arbitrary: k)
  case Nil
  then show ?case by (auto split: if_splits)
next
  case (Cons c cs)
  then have a: "\<not> startsWith (c # cs) p" and b: "indexOf cs p < 0"
    by (auto simp: Let_def split: if_splits)
  show ?case
  proof (cases k)
    case 0
    with a show ?thesis by simp
  next
    case (Suc j)
    with Cons.IH [OF b] show ?thesis by simp
  qed
qed

lemma indexOf_eqI:
  "startsWith (drop n s) p \<Longrightarrow> n \<le> length s \<Longrightarrow> (\<And>k. k < n \<Longrightarrow> \<not> startsWith (drop k s) p)
   \<Longrightarrow> indexOf s p = int n"
proof -
  assume m: "startsWith (drop n s) p" and le: "n \<le> length s"
    and first: "\<And>k. k < n \<Longrightarrow> \<not> startsWith (drop k s) p"
  have nn: "0 \<le> indexOf s p"
    using indexOf_none [of s p n] m by force
  have "\<not> n < nat (indexOf s p)"
    using indexOf_first [OF nn] m by blast
  moreover have "\<not> nat (indexOf s p) < n"
    using first indexOf_found [OF nn] by blast
  ultimately show ?thesis using nn by simp
qed

lemma includesStr_iff:
  "includesStr s p \<longleftrightarrow> (\<exists>k. startsWith (drop k s) p)"
proof
  assume "includesStr s p"
  then have "0 \<le> indexOf s p"
    using indexOf_ge [of s p] by (simp add: includesStr_def)
  from indexOf_found [OF this] show "\<exists>k. startsWith (drop k s) p" ..
next
  assume "\<exists>k. startsWith (drop k s) p"
  then show "includesStr s p"
    using indexOf_none [of s p] indexOf_ge [of s p]
    by (fastforce simp: includesStr_def)
qed

lemma includesStr_iff_append:
  "includesStr s p \<longleftrightarrow> (\<exists>a b. s = a @ p @ b)"
proof
  assume "includesStr s p"
  then obtain k where "startsWith (drop k s) p"
    by (auto simp: includesStr_iff)
  then obtain t where "drop k s = p @ t"
    by (auto simp: startsWith_append)
  then have "s = take k s @ p @ t"
    by (metis append_take_drop_id)
  then show "\<exists>a b. s = a @ p @ b" by blast
next
  assume "\<exists>a b. s = a @ p @ b"
  then obtain a b where "s = a @ p @ b" by blast
  then have "startsWith (drop (length a) s) p"
    by (simp add: startsWith_append)
  then show "includesStr s p"
    by (auto simp: includesStr_iff)
qed

subsection \<open>Character sets\<close>

lemma getTextDecoder_recognized:
  "getTextDecoder charset = recognizedCharset (normalizedCharset charset)"
  by (simp add: getTextDecoder_def recognizedCharset_def charsetMap_def)

lemma recognizedCharset_range:
  "recognizedCharset n \<in> {''utf-8'', ''gbk'', ''gb18030'', ''big5'', ''iso-8859-1'', ''windows-1252''}"
  by (simp add: recognizedCharset_def)

text \<open>
  Claim C5, as amended. For every charset label, the lookup normalises the label by
  lower-casing it and deleting every character other than a to z, 0 to 9 and the hyphen,
  then resolves it in the recognised set (gbk, gb2312 mapped to gbk, gb18030, big5,
  iso88591 and iso-8859-1, windows1252 and windows-1252), and resolves every other
  normalised label to utf-8; the decoder is always one of six, and two labels with the
  same normal form get the same decoder. The hyphen is kept, so labels that differ in
  hyphens need not agree.
\<close>

theorem getTextDecoder_lookup:
  "getTextDecoder charset = recognizedCharset (normalizedCharset charset)
   \<and> normalizedCharset charset
       = filter labelChar (toLowerCase (if charset = [] then ''utf-8'' else charset))
   \<and> getTextDecoder charset
       \<in> {''utf-8'', ''gbk'', ''gb18030'', ''big5'', ''iso-8859-1'', ''windows-1252''}
   \<and> (normalizedCharset other = normalizedCharset charset
        \<longrightarrow> getTextDecoder other = getTextDecoder charset)"
proof (intro conjI impI)
  show "getTextDecoder charset = recognizedCharset (normalizedCharset charset)"
    by (rule getTextDecoder_recognized)
  show "normalizedCharset charset
       = filter labelChar (toLowerCase (if charset = [] then ''utf-8'' else charset))"
    by (rule normalizedCharset_def)
  show "getTextDecoder charset
       \<in> {''utf-8'', ''gbk'', ''gb18030'', ''big5'', ''iso-8859-1'', ''windows-1252''}"
    unfolding getTextDecoder_recognized by (rule recognizedCharset_range)
  assume "normalizedCharset other = normalizedCharset charset"
  then show "getTextDecoder other = getTextDecoder charset"
    by (simp only: getTextDecoder_recognized)
qed

theorem getTextDecoder_lookup_witness:
  "normalizedCharset ''ISO_8859 1'' = normalizedCharset ''iso88591''
   \<and> getTextDecoder ''ISO_8859 1'' = getTextDecoder ''iso88591''"
proof -
  have h: "normalizedCharset ''ISO_8859 1'' = normalizedCharset ''iso88591''"
    by code_simp
  have "getTextDecoder ''ISO_8859 1'' = getTextDecoder ''iso88591''"
    by (rule getTextDecoder_lookup
          [of "''iso88591''" "''ISO_8859 1''", THEN conjunct2, THEN conjunct2,
           THEN conjunct2, THEN mp, OF h])
  with h show ?thesis by (rule conjI)
qed

text \<open>The claim as it was written fails: the two labels of its example differ in
  punctuation only, and the lookup gives them different decoders.\<close>

theorem getTextDecoder_punctuation_counterexample:
  "normalizedCharset ''ISO_8859-1'' = ''iso8859-1''
   \<and> getTextDecoder ''ISO_8859-1'' = ''utf-8''
   \<and> getTextDecoder ''iso88591'' = ''iso-8859-1''
   \<and> getTextDecoder ''ISO_8859-1'' \<noteq> getTextDecoder ''iso88591''"
  by code_simp

subsection \<open>HTML to text\<close>

lemma htmlToText_example:
  "htmlToText ''<p>Hi <b>there</b></p>'' = ''Hi there''"
  by code_simp

text \<open>
  Claim C8 says that the entities are replaced in an order in which an entity that the
  replacement of \<^verbatim>\<open>&amp;\<close> brings about is not read again, so that \<^verbatim>\<open>&amp;lt;\<close>
  gives the text \<^verbatim>\<open>&lt;\<close>. The function replaces \<^verbatim>\<open>&amp;\<close> before \<^verbatim>\<open>&lt;\<close>, and on
  this input it gives \<^verbatim>\<open><\<close>.
\<close>

theorem htmlToText_double_unescape:
  "htmlToText ''&amp;lt;'' = ''<''"
  by code_simp

subsection \<open>Encoded words\<close>

text \<open>
  Claim C4 says that a token whose decoding fails stays in the header value as it was,
  with its prefix and its suffix. For a token whose text is not base64,
  \<^verbatim>\<open>decodeBase64\<close> catches the error itself and returns the text between the question
  marks, and that text alone replaces the token, whatever the decoder of the platform.
\<close>

theorem decodeMimeHeader_failed_token:
  "decodeMimeHeader dec ''=?utf-8?B?!?='' = ''!''"
  by code_simp

subsection \<open>Header block and body block\<close>

lemma take4_append_short:
  "u \<noteq> [] \<Longrightarrow> length v = 4 \<Longrightarrow> take 4 (u @ v @ w) = take 4 (u @ take 3 v)"
  by (cases u) (simp_all add: min_def)

lemma first_occurrence:
  assumes len: "length p = 4" and "\<not> includesStr (h @ take 3 p) p"
  shows "indexOf (h @ p @ b) p = int (length h)"
proof (rule indexOf_eqI)
  show "startsWith (drop (length h) (h @ p @ b)) p"
    by (simp add: startsWith_append)
  show "length h \<le> length (h @ p @ b)" by simp
  fix k assume k: "k < length h"
  show "\<not> startsWith (drop k (h @ p @ b)) p"
  proof
    assume "startsWith (drop k (h @ p @ b)) p"
    then have "take 4 (drop k h @ p @ b) = p"
      using k len by (simp add: startsWith_def)
    moreover have "take 4 (drop k h @ p @ b) = take 4 (drop k h @ take 3 p)"
      using k len by (intro take4_append_short) simp_all
    ultimately have "take 4 (drop k h @ take 3 p) = p"
      by simp
    then have "startsWith (drop k (h @ take 3 p)) p"
      using k len by (simp add: startsWith_def)
    with assms show False by (auto simp: includesStr_iff)
  qed
qed

lemma split_at_index:
  "indexOf raw (CRLF @ CRLF) = int n \<Longrightarrow> 0 < n
   \<Longrightarrow> headersRawOf raw = take n raw \<and> bodyRawOf raw = drop (n + 4) raw"
  by (simp add: headersRawOf_def bodyRawOf_def substring_def substringFrom_def)

lemma blank_line_first:
  assumes "h \<noteq> []" and "\<not> includesStr (h @ take 3 (CRLF @ CRLF)) (CRLF @ CRLF)"
  shows "headersRawOf (h @ CRLF @ CRLF @ b) = h \<and> bodyRawOf (h @ CRLF @ CRLF @ b) = b"
proof -
  have "length (CRLF @ CRLF) = 4" by (simp add: CRLF_def)
  from first_occurrence [OF this assms(2), of b]
  have "indexOf (h @ CRLF @ CRLF @ b) (CRLF @ CRLF) = int (length h)"
    by (simp only: append_assoc)
  moreover have "0 < length h" using assms(1) by simp
  ultimately have "headersRawOf (h @ CRLF @ CRLF @ b) = take (length h) (h @ CRLF @ CRLF @ b)
      \<and> bodyRawOf (h @ CRLF @ CRLF @ b) = drop (length h + 4) (h @ CRLF @ CRLF @ b)"
    by (rule split_at_index)
  then show ?thesis by (simp add: CRLF_def)
qed

lemma no_blank_line:
  assumes "\<not> includesStr raw (CRLF @ CRLF)"
  shows "headersRawOf raw = raw \<and> bodyRawOf raw = []"
  using assms by (simp add: headersRawOf_def bodyRawOf_def includesStr_def)

lemma blank_line_needs_CR:
  assumes "CR \<notin> set raw"
  shows "\<not> includesStr raw (CRLF @ CRLF)"
proof
  assume "includesStr raw (CRLF @ CRLF)"
  then obtain a b where "raw = a @ (CRLF @ CRLF) @ b"
    by (auto simp: includesStr_iff_append)
  then have "CR \<in> set raw" by (simp add: CRLF_def)
  with assms show False by simp
qed

text \<open>
  Claim C7, as amended. For every raw message, the parser splits at the first CRLF CRLF
  (one that does not open the message) into the header block before it and the body
  block behind it, and a message without CRLF CRLF is all header block, with an empty
  body. Only CRLF CRLF is the blank line: a message that has no CR, such as one with LF
  line ends, is never split.
\<close>

theorem header_body_split:
  "(h \<noteq> [] \<and> \<not> includesStr (h @ take 3 (CRLF @ CRLF)) (CRLF @ CRLF)
      \<longrightarrow> headersRawOf (h @ CRLF @ CRLF @ b) = h \<and> bodyRawOf (h @ CRLF @ CRLF @ b) = b)
   \<and> (\<not> includesStr raw (CRLF @ CRLF) \<longrightarrow> headersRawOf raw = raw \<and> bodyRawOf raw = [])
   \<and> (CR \<notin> set raw \<longrightarrow> headersRawOf raw = raw \<and> bodyRawOf raw = [])"
proof (intro conjI impI)
  assume a: "h \<noteq> [] \<and> \<not> includesStr (h @ take 3 (CRLF @ CRLF)) (CRLF @ CRLF)"
  then show "headersRawOf (h @ CRLF @ CRLF @ b) = h" "bodyRawOf (h @ CRLF @ CRLF @ b) = b"
    by (simp_all add: blank_line_first)
next
  assume "\<not> includesStr raw (CRLF @ CRLF)"
  then show "headersRawOf raw = raw" "bodyRawOf raw = []"
    by (simp_all add: no_blank_line)
next
  assume "CR \<notin> set raw"
  then have "\<not> includesStr raw (CRLF @ CRLF)" by (rule blank_line_needs_CR)
  then show "headersRawOf raw = raw" "bodyRawOf raw = []"
    by (simp_all add: no_blank_line)
qed

theorem header_body_split_witness:
  "headersRawOf (''Subject: x'' @ CRLF @ CRLF @ ''body'') = ''Subject: x''
   \<and> bodyRawOf (''Subject: x'' @ CRLF @ CRLF @ ''body'') = ''body''
   \<and> headersRawOf ''Subject: x'' = ''Subject: x''
   \<and> bodyRawOf ''Subject: x'' = []"
proof -
  have h1: "''Subject: x'' \<noteq> []
      \<and> \<not> includesStr (''Subject: x'' @ take 3 (CRLF @ CRLF)) (CRLF @ CRLF)"
    by code_simp
  have h2: "\<not> includesStr ''Subject: x'' (CRLF @ CRLF)"
    by code_simp
  note t = header_body_split [of "''Subject: x''" "''body''" "''Subject: x''"]
  from t [THEN conjunct1, THEN mp, OF h1] t [THEN conjunct2, THEN conjunct1, THEN mp, OF h2]
  show ?thesis by blast
qed

text \<open>The claim as it was written fails on a message with LF line ends and a blank
  line: the body block is empty.\<close>

theorem header_body_LF_counterexample:
  "headersRawOf (''Subject: x'' @ [LF, LF] @ ''body'') = ''Subject: x'' @ [LF, LF] @ ''body''
   \<and> bodyRawOf (''Subject: x'' @ [LF, LF] @ ''body'') = []"
  by code_simp

subsection \<open>Splitting at the boundary\<close>

lemma splitFrom_not_Nil: "splitFrom d acc s \<noteq> []"
  by (induction d acc s rule: splitFrom.induct) auto

lemma startsWith_drop: "startsWith s d \<Longrightarrow> d @ drop (length d) s = s"
  by (metis append_take_drop_id startsWith_def)

lemma splitFrom_join:
  "hd (splitFrom d acc s) @ concat (map ((@) d) (tl (splitFrom d acc s))) = acc @ s"
proof (induction d acc s rule: splitFrom.induct)
  case (1 d acc)
  show ?case by simp
next
  case (2 d acc c cs)
  show ?case
  proof (cases "d \<noteq> [] \<and> startsWith (c # cs) d")
    case True
    let ?rest = "drop (length d - 1) cs"
    from True have r: "d @ ?rest = c # cs"
      using startsWith_drop [of "c # cs" d] by (cases d) auto
    have "concat (map ((@) d) (splitFrom d [] ?rest))
        = d @ hd (splitFrom d [] ?rest) @ concat (map ((@) d) (tl (splitFrom d [] ?rest)))"
      using splitFrom_not_Nil [of d "[]" ?rest] by (cases "splitFrom d [] ?rest") auto
    also have "\<dots> = d @ ?rest"
      using 2(1) [OF True] by simp
    finally show ?thesis using True r by simp
  next
    case False
    then have "splitFrom d acc (c # cs) = splitFrom d (acc @ [c]) cs"
      by (simp only: splitFrom.simps if_False)
    with 2(2) [OF False] show ?thesis by simp
  qed
qed

lemma includesStr_inside:
  assumes "d \<noteq> []" and "includesStr acc d"
  shows "\<exists>k<length acc. startsWith (drop k (acc @ s)) d"
proof -
  from assms(2) obtain a b where e: "acc = a @ d @ b"
    by (auto simp: includesStr_iff_append)
  then have "startsWith (drop (length a) (acc @ s)) d"
    by (simp add: startsWith_append)
  moreover have "length a < length acc" using e assms(1) by simp
  ultimately show ?thesis by blast
qed

lemma splitFrom_pieces:
  "d \<noteq> [] \<Longrightarrow> (\<And>k. k < length acc \<Longrightarrow> \<not> startsWith (drop k (acc @ s)) d)
   \<Longrightarrow> piece \<in> set (splitFrom d acc s) \<Longrightarrow> \<not> includesStr piece d"
proof (induction d acc s rule: splitFrom.induct)
  case (1 d acc)
  then show ?case using includesStr_inside [of d acc "[]"] by auto
next
  case (2 d acc c cs)
  show ?case
  proof (cases "startsWith (c # cs) d")
    case True
    with 2(3) have m: "d \<noteq> [] \<and> startsWith (c # cs) d" by simp
    from 2(5) m have "piece = acc \<or> piece \<in> set (splitFrom d [] (drop (length d - 1) cs))"
      by simp
    then show ?thesis
    proof
      assume "piece = acc"
      then show ?thesis using includesStr_inside [of d acc "c # cs"] 2(3,4) by blast
    next
      assume "piece \<in> set (splitFrom d [] (drop (length d - 1) cs))"
      then show ?thesis using 2(1) [OF m 2(3)] by simp
    qed
  next
    case False
    then have n: "\<not> (d \<noteq> [] \<and> startsWith (c # cs) d)" by simp
    have inv: "\<not> startsWith (drop k ((acc @ [c]) @ cs)) d" if "k < length (acc @ [c])" for k
    proof (cases "k < length acc")
      case True
      with 2(4) show ?thesis by simp
    next
      case False
      with that have "k = length acc" by simp
      with \<open>\<not> startsWith (c # cs) d\<close> show ?thesis by simp
    qed
    from 2(5) n have "piece \<in> set (splitFrom d (acc @ [c]) cs)" by simp
    from 2(2) [OF n 2(3) inv this] show ?thesis .
  qed
qed

lemma parseMultipart_sections:
  "parseMultipart dec body boundary
     = List.map_filter (parseSection dec) (tl (split body (''--'' @ boundary)))"
  by (simp add: parseMultipart_def drop_Suc)

lemma boundaryExample_parts:
   "parseMultipart dec boundaryExample ''xyz''
       = [\<lparr>partHeaders = [(''content-type'', ''text/plain'')], partBody = ''foo''\<rparr>]"
  by code_simp

text \<open>
  Claim C10. For every body and boundary, the body is divided at every occurrence of
  \<^verbatim>\<open>--\<close> followed by the boundary, wherever it stands: the pieces joined by the
  delimiter are the body, no piece contains the delimiter, and the parts are read from
  the pieces behind the first. A part whose text holds the delimiter in the middle of a
  line is cut there: in the example the part with the text \<^verbatim>\<open>foo--xyzbar\<close> keeps
  \<^verbatim>\<open>foo\<close>.
\<close>

theorem split_at_every_delimiter:
  "hd (split body (''--'' @ boundary))
     @ concat (map ((@) (''--'' @ boundary)) (tl (split body (''--'' @ boundary)))) = body
   \<and> (\<forall>piece \<in> set (split body (''--'' @ boundary)). \<not> includesStr piece (''--'' @ boundary))
   \<and> parseMultipart dec body boundary
       = List.map_filter (parseSection dec) (tl (split body (''--'' @ boundary)))
   \<and> parseMultipart dec boundaryExample ''xyz''
       = [\<lparr>partHeaders = [(''content-type'', ''text/plain'')], partBody = ''foo''\<rparr>]"
proof (intro conjI ballI)
  have ne: "''--'' @ boundary \<noteq> []" by simp
  show "hd (split body (''--'' @ boundary))
     @ concat (map ((@) (''--'' @ boundary)) (tl (split body (''--'' @ boundary)))) = body"
    using splitFrom_join [of "''--'' @ boundary" "[]" body] by (simp add: split_def)
  fix piece assume "piece \<in> set (split body (''--'' @ boundary))"
  then have "piece \<in> set (splitFrom (''--'' @ boundary) [] body)"
    by (simp add: split_def)
  then show "\<not> includesStr piece (''--'' @ boundary)"
    using splitFrom_pieces [OF ne, of "[]" body piece] by simp
next
  show "parseMultipart dec body boundary
       = List.map_filter (parseSection dec) (tl (split body (''--'' @ boundary)))"
    by (rule parseMultipart_sections)
  show "parseMultipart dec boundaryExample ''xyz''
       = [\<lparr>partHeaders = [(''content-type'', ''text/plain'')], partBody = ''foo''\<rparr>]"
    by (rule boundaryExample_parts)
qed

theorem split_at_every_delimiter_witness:
  "split boundaryExample ''--xyz''
     = [[], CRLF @ ''Content-Type: text/plain'' @ CRLF @ CRLF @ ''foo'', ''bar'' @ CRLF, ''--'']
   \<and> hd (split boundaryExample (''--'' @ ''xyz''))
       @ concat (map ((@) (''--'' @ ''xyz'')) (tl (split boundaryExample (''--'' @ ''xyz''))))
       = boundaryExample
   \<and> parseMultipart plainDecoder boundaryExample ''xyz''
       = [\<lparr>partHeaders = [(''content-type'', ''text/plain'')], partBody = ''foo''\<rparr>]"
proof -
  have "split boundaryExample ''--xyz''
     = [[], CRLF @ ''Content-Type: text/plain'' @ CRLF @ CRLF @ ''foo'', ''bar'' @ CRLF, ''--'']"
    by code_simp
  with split_at_every_delimiter [of boundaryExample "''xyz''" plainDecoder]
  show ?thesis by blast
qed

subsection \<open>A multipart message without a boundary\<close>

lemma charCode_range: "0 \<le> charCode c \<and> charCode c < 256"
proof -
  have "charCode c = int (of_char c)"
    by (simp add: charCode_def of_nat_of_char)
  moreover have "(of_char c :: nat) < 256" by simp
  ultimately show ?thesis by simp
qed

lemma foldChar_lowerChar:
  "charCode (foldChar c) < 128 \<Longrightarrow> lowerChar c = foldChar c"
  by (auto simp: foldChar_def lowerChar_def Let_def)

lemma startsWithI_lower:
  assumes "startsWithI s name" and "\<forall>x \<in> set name. charCode x < 128"
  shows "startsWith (toLowerCase s) name"
proof -
  from assms(1) have e: "map foldChar (take (length name) s) = name"
    by (simp add: startsWithI_def)
  have "map lowerChar (take (length name) s) = map foldChar (take (length name) s)"
  proof (rule map_cong [OF refl])
    fix c assume "c \<in> set (take (length name) s)"
    then have "foldChar c \<in> set name" using e by (metis image_eqI set_map)
    with assms(2) show "lowerChar c = foldChar c" by (simp add: foldChar_lowerChar)
  qed
  with e show ?thesis by (simp add: startsWith_def toLowerCase_def take_map)
qed

lemma paramAt_name: "paramAt name ok s = Some v \<Longrightarrow> startsWithI s name"
  by (simp add: paramAt_def split: if_splits)

lemma paramMatch_name:
  "paramMatch name ok s = Some v \<Longrightarrow> \<exists>k. startsWithI (drop k s) name"
proof (induction s)
  case Nil
  then show ?case by simp
next
  case (Cons c cs)
  show ?case
  proof (cases "paramAt name ok (c # cs)")
    case None
    with Cons obtain k where "startsWithI (drop k cs) name" by auto
    then have "startsWithI (drop (Suc k) (c # cs)) name" by simp
    then show ?thesis by blast
  next
    case (Some w)
    then have "startsWithI (drop 0 (c # cs)) name" by (simp add: paramAt_name)
    then show ?thesis by blast
  qed
qed

lemma paramMatch_includes:
  assumes "paramMatch name ok s = Some v" and "\<forall>x \<in> set name. charCode x < 128"
  shows "includesStr (toLowerCase s) name"
proof -
  from paramMatch_name [OF assms(1)] obtain k where "startsWithI (drop k s) name" ..
  then have "startsWith (toLowerCase (drop k s)) name"
    using assms(2) by (rule startsWithI_lower)
  then have "startsWith (drop k (toLowerCase s)) name"
    by (simp add: toLowerCase_def drop_map)
  then show ?thesis by (auto simp: includesStr_iff)
qed

lemma boundary_name_ascii: "\<forall>x \<in> set ''boundary=''. charCode x < 128"
  by (simp add: charCode_def)

lemma no_boundary_attribute:
  "\<not> includesStr (toLowerCase contentType) ''boundary=''
   \<Longrightarrow> paramMatch ''boundary='' valueChar contentType = None"
  using paramMatch_includes [OF _ boundary_name_ascii] by (cases "paramMatch ''boundary='' valueChar contentType") auto

lemma parseBody_no_boundary:
  assumes "includesStr (toLowerCase contentType) ''multipart''"
    and "\<not> includesStr (toLowerCase contentType) ''boundary=''"
  shows "parseBody dec bodyRaw contentType transferEncoding
           = \<lparr>textContent = [], htmlContent = [], attachments = []\<rparr>"
  using assms by (simp add: parseBody_def no_boundary_attribute)

text \<open>
  Claim C3. For every message whose top-level Content-Type contains \<^verbatim>\<open>multipart\<close>
  and carries no \<^verbatim>\<open>boundary=\<close> attribute, the parse result has an empty
  \<open>textContent\<close>, an empty \<open>htmlContent\<close> and no attachment. (Both tests read the
  value without regard to case, as the parser does.)
\<close>

theorem multipart_without_boundary:
  assumes "headerOr (headers (parseMimeEmail dec raw)) ''content-type'' ''text/plain'' = contentType"
    and "includesStr (toLowerCase contentType) ''multipart''"
    and "\<not> includesStr (toLowerCase contentType) ''boundary=''"
  shows "textContent (parseMimeEmail dec raw) = []
         \<and> htmlContent (parseMimeEmail dec raw) = []
         \<and> attachments (parseMimeEmail dec raw) = []
         \<and> parseBody dec bodyRaw contentType transferEncoding
             = \<lparr>textContent = [], htmlContent = [], attachments = []\<rparr>"
proof -
  from assms(1) have ct: "headerOr (parseHeaders dec (headersRawOf raw)) ''content-type'' ''text/plain'' = contentType"
    by (simp add: parseMimeEmail_def Let_def)
  have "parseBody dec b contentType t = \<lparr>textContent = [], htmlContent = [], attachments = []\<rparr>" for b t
    using assms(2,3) by (rule parseBody_no_boundary)
  then show ?thesis by (simp add: parseMimeEmail_def Let_def ct)
qed

theorem multipart_without_boundary_witness:
  "textContent (parseMimeEmail plainDecoder noBoundaryExample) = []
   \<and> htmlContent (parseMimeEmail plainDecoder noBoundaryExample) = []
   \<and> attachments (parseMimeEmail plainDecoder noBoundaryExample) = []
   \<and> headerOr (headers (parseMimeEmail plainDecoder noBoundaryExample)) ''content-type'' ''text/plain''
        = ''multipart/mixed''"
proof -
  have h1: "headerOr (headers (parseMimeEmail plainDecoder noBoundaryExample)) ''content-type'' ''text/plain''
        = ''multipart/mixed''"
    by code_simp
  have h2: "includesStr (toLowerCase ''multipart/mixed'') ''multipart''"
    by code_simp
  have h3: "\<not> includesStr (toLowerCase ''multipart/mixed'') ''boundary=''"
    by code_simp
  from multipart_without_boundary [OF h1 h2 h3] h1 show ?thesis by blast
qed

subsection \<open>Quoted-printable\<close>

declare qpLoop.simps [simp del]

lemma isHexPair_two: "isHexPair [h1, h2] \<longleftrightarrow> isHexDigit h1 \<and> isHexDigit h2"
  by (simp add: isHexPair_def)

lemma parseHexPair_two: "parseHexPair [h1, h2] = 16 * hexValue h1 + hexValue h2"
  by (simp add: parseHexPair_def)

lemma substring_pair:
  "i + 2 < length s \<Longrightarrow> substring s (i + 1) (i + 3) = [s ! (i + 1), s ! (i + 2)]"
proof -
  assume a: "i + 2 < length s"
  have "take 2 (drop (i + 1) s) = [s ! (i + 1), s ! (i + 2)]"
    using a by (simp add: take_Suc_conv_app_nth numeral_2_eq_2)
  then show ?thesis by (simp add: substring_def)
qed

lemma drop_three:
  "i + 2 < length s \<Longrightarrow> drop i s = s ! i # s ! (i + 1) # s ! (i + 2) # drop (i + 3) s"
proof -
  assume a: "i + 2 < length s"
  have "drop i s = s ! i # drop (Suc i) s" using a by (simp add: Cons_nth_drop_Suc)
  also have "drop (Suc i) s = s ! (i + 1) # drop (Suc (Suc i)) s"
    using a by (simp add: Cons_nth_drop_Suc)
  also have "drop (Suc (Suc i)) s = s ! (i + 2) # drop (i + 3) s"
    using a Cons_nth_drop_Suc [of "i + 2" s] by (simp add: numeral_3_eq_3)
  finally show ?thesis .
qed

lemma qpScan_short:
  "length t < 3 \<Longrightarrow> qpScan t = map (\<lambda>c. of_int (charCode c)) t"
proof -
  assume "length t < 3"
  then consider "t = []" | a where "t = [a]" | a b where "t = [a, b]"
    by (cases t rule: qpScan.cases) auto
  then show ?thesis by cases auto
qed

lemma qpLoop_qpScan:
  "qpLoop cleaned i bytes = bytes @ qpScan (drop i cleaned)"
proof (induction cleaned i bytes rule: qpLoop.induct)
  case (1 cleaned i bytes)
  show ?case
  proof (cases "i < length cleaned")
    case False
    then show ?thesis by (subst qpLoop.simps) simp
  next
    case True
    show ?thesis
    proof (cases "i + 2 < length cleaned")
      case long: True
      let ?h1 = "cleaned ! (i + 1)" and ?h2 = "cleaned ! (i + 2)"
      have d: "drop i cleaned = cleaned ! i # ?h1 # ?h2 # drop (i + 3) cleaned"
        using long by (rule drop_three)
      have sub: "substring cleaned (i + 1) (i + 3) = [?h1, ?h2]"
        using long by (rule substring_pair)
      show ?thesis
      proof (cases "cleaned ! i = CHR ''='' \<and> isHexDigit ?h1 \<and> isHexDigit ?h2")
        case hex: True
        then have c: "cleaned ! i = CHR ''='' \<and> i + 2 < length cleaned
            \<and> isHexPair (substring cleaned (i + 1) (i + 3))"
          using long unfolding sub isHexPair_two by blast
        have "qpLoop cleaned i bytes
            = qpLoop cleaned (i + 3)
                (bytes @ [of_int (parseHexPair (substring cleaned (i + 1) (i + 3)))])"
          using True c by (subst qpLoop.simps) simp
        also have "\<dots> = (bytes @ [of_int (parseHexPair (substring cleaned (i + 1) (i + 3)))])
            @ qpScan (drop (i + 3) cleaned)"
          using "1.IH"(1) [OF True c] .
        also have "\<dots> = bytes @ qpScan (drop i cleaned)"
        proof -
          have "qpScan (drop i cleaned)
              = of_int (16 * hexValue ?h1 + hexValue ?h2) # qpScan (drop (i + 3) cleaned)"
            unfolding d using hex by simp
          moreover have "parseHexPair (substring cleaned (i + 1) (i + 3))
              = 16 * hexValue ?h1 + hexValue ?h2"
            unfolding sub by (rule parseHexPair_two)
          ultimately show ?thesis by (simp only: append_assoc append_Cons append_Nil)
        qed
        finally show ?thesis .
      next
        case nohex: False
        then have c: "\<not> (cleaned ! i = CHR ''='' \<and> i + 2 < length cleaned
            \<and> isHexPair (substring cleaned (i + 1) (i + 3)))"
          unfolding sub isHexPair_two by blast
        have "qpLoop cleaned i bytes
            = qpLoop cleaned (i + 1) (bytes @ [of_int (charCode (cleaned ! i))])"
          using True c by (subst qpLoop.simps) (simp only: if_True if_False)
        also have "\<dots> = (bytes @ [of_int (charCode (cleaned ! i))]) @ qpScan (drop (i + 1) cleaned)"
          using "1.IH"(2) [OF True c] .
        also have "\<dots> = bytes @ qpScan (drop i cleaned)"
        proof -
          have "drop (i + 1) cleaned = ?h1 # ?h2 # drop (i + 3) cleaned"
            using d by (metis Suc_eq_plus1 drop_Suc list.sel(3) tl_drop)
          moreover have "qpScan (cleaned ! i # ?h1 # ?h2 # drop (i + 3) cleaned)
              = of_int (charCode (cleaned ! i)) # qpScan (?h1 # ?h2 # drop (i + 3) cleaned)"
            using nohex by (simp only: qpScan.simps if_False)
          ultimately show ?thesis
            by (simp only: d append_assoc append_Cons append_Nil)
        qed
        finally show ?thesis .
      qed
    next
      case short: False
      then have c: "\<not> (cleaned ! i = CHR ''='' \<and> i + 2 < length cleaned
            \<and> isHexPair (substring cleaned (i + 1) (i + 3)))"
        by simp
      have "qpLoop cleaned i bytes
          = qpLoop cleaned (i + 1) (bytes @ [of_int (charCode (cleaned ! i))])"
        using True c by (subst qpLoop.simps) (simp only: if_True if_False)
      also have "\<dots> = (bytes @ [of_int (charCode (cleaned ! i))]) @ qpScan (drop (i + 1) cleaned)"
        using "1.IH"(2) [OF True c] .
      also have "\<dots> = bytes @ qpScan (drop i cleaned)"
      proof -
        have l: "length (drop i cleaned) < 3" "length (drop (i + 1) cleaned) < 3"
          using short by simp_all
        have "drop i cleaned = cleaned ! i # drop (i + 1) cleaned"
          using True by (simp add: Cons_nth_drop_Suc)
        then show ?thesis using l by (simp add: qpScan_short)
      qed
      finally show ?thesis .
    qed
  qed
qed


lemma isHexDigit_equals [simp]: "\<not> isHexDigit (CHR ''='')"
  by (simp add: isHexDigit_def charCode_def)

lemma qpScan_final_pair:
  assumes "isHexDigit h1" and "isHexDigit h2"
  shows "qpScan (s @ [CHR ''='', h1, h2]) = qpScan s @ [of_int (16 * hexValue h1 + hexValue h2)]"
  using assms by (induction s rule: qpScan.induct) auto

lemma softBreak_shorter: "softBreak s = Some (r, rest) \<Longrightarrow> length rest < length s"
  by (cases s) (auto simp: softBreak_def startsWith_def CRLF_def split: if_splits)

lemma softBreak_before_equals:
  "softBreak ((c # cs) @ CHR ''='' # t)
     = map_option (\<lambda>(r, rest). (r, rest @ CHR ''='' # t)) (softBreak (c # cs))"
proof -
  consider "cs = []" | x where "cs = [x]" | x y zs where "cs = x # y # zs"
    by (cases cs rule: qpScan.cases) auto
  then show ?thesis
    by cases (auto simp: softBreak_def startsWith_def CRLF_def CR_def LF_def)
qed

lemma removeSoftBreaks_append:
  "replaceAll softBreak (a @ CHR ''='' # t)
     = replaceAll softBreak a @ replaceAll softBreak (CHR ''='' # t)"
proof (induction a rule: length_induct)
  case (1 a)
  show ?case
  proof (cases a)
    case Nil
    then show ?thesis by simp
  next
    case (Cons c cs)
    show ?thesis
    proof (cases "softBreak (c # cs)")
      case None
      then have n: "softBreak ((c # cs) @ CHR ''='' # t) = None"
        by (simp only: softBreak_before_equals option.map)
      have "replaceAll softBreak (cs @ CHR ''='' # t)
          = replaceAll softBreak cs @ replaceAll softBreak (CHR ''='' # t)"
        using 1 Cons by simp
      then show ?thesis using None n Cons by simp
    next
      case (Some p)
      obtain r rest where p: "p = (r, rest)" by (cases p)
      with Some have m: "softBreak ((c # cs) @ CHR ''='' # t) = Some (r, rest @ CHR ''='' # t)"
        by (simp only: softBreak_before_equals option.map prod.case)
      from Some p have l: "length rest < length (c # cs)"
        using softBreak_shorter [of "c # cs" r rest] by simp
      then have "replaceAll softBreak (rest @ CHR ''='' # t)
          = replaceAll softBreak rest @ replaceAll softBreak (CHR ''='' # t)"
        using 1 Cons by simp
      then show ?thesis using Some p m l Cons by simp
    qed
  qed
qed

lemma removeSoftBreaks_break:
  "replaceAll softBreak (a @ [CHR ''=''] @ CRLF @ b) = replaceAll softBreak a @ replaceAll softBreak b
   \<and> replaceAll softBreak (a @ [CHR ''='', LF] @ b) = replaceAll softBreak a @ replaceAll softBreak b"
proof -
  have "replaceAll softBreak (CHR ''='' # CRLF @ b) = replaceAll softBreak b"
    by (simp add: softBreak_def startsWith_def CRLF_def)
  moreover have "replaceAll softBreak (CHR ''='' # LF # b) = replaceAll softBreak b"
    by (simp add: softBreak_def startsWith_def CRLF_def CR_def LF_def)
  ultimately show ?thesis
    using removeSoftBreaks_append [of a "CRLF @ b"] removeSoftBreaks_append [of a "LF # b"]
    by simp
qed

text \<open>
  Claim C2. For every input, quoted-printable decoding first removes the soft line
  breaks (an \<^verbatim>\<open>=\<close> with CRLF or LF right behind it) and then scans from left to
  right: an \<^verbatim>\<open>=\<close> followed by two hexadecimal digits emits the byte they denote,
  every other character emits its own code unit; the bytes go to the decoder of the
  character set. A pair of digits at the very end of the input is decoded too.
  \<^verbatim>\<open>A=3DB\<close> gives the bytes of \<^verbatim>\<open>A=B\<close>, and \<^verbatim>\<open>A=\<close> CRLF \<^verbatim>\<open>B\<close> those of \<^verbatim>\<open>AB\<close>,
  which a decoder that reads ASCII bytes as they are turns into these texts.
\<close>

theorem quoted_printable_decoding:
  "decodeQuotedPrintable dec str charset
     = dec (getTextDecoder charset) (qpScan (replaceAll softBreak str))
   \<and> replaceAll softBreak (a @ [CHR ''=''] @ CRLF @ b)
       = replaceAll softBreak a @ replaceAll softBreak b
   \<and> replaceAll softBreak (a @ [CHR ''='', LF] @ b)
       = replaceAll softBreak a @ replaceAll softBreak b
   \<and> (isHexDigit h1 \<and> isHexDigit h2
        \<longrightarrow> qpScan (s @ [CHR ''='', h1, h2])
            = qpScan s @ [of_int (16 * hexValue h1 + hexValue h2)])
   \<and> (dec ''utf-8'' (binaryBytes ''A=B'') = ''A=B''
        \<longrightarrow> decodeQuotedPrintable dec ''A=3DB'' ''utf-8'' = ''A=B'')
   \<and> (dec ''utf-8'' (binaryBytes ''AB'') = ''AB''
        \<longrightarrow> decodeQuotedPrintable dec (''A='' @ CRLF @ ''B'') ''utf-8'' = ''AB'')"
proof (intro conjI impI)
  show r: "decodeQuotedPrintable dec str charset
     = dec (getTextDecoder charset) (qpScan (replaceAll softBreak str))" for str charset
    by (simp add: decodeQuotedPrintable_def qpLoop_qpScan)
  show "replaceAll softBreak (a @ [CHR ''=''] @ CRLF @ b)
       = replaceAll softBreak a @ replaceAll softBreak b"
    by (simp only: removeSoftBreaks_break)
  show "replaceAll softBreak (a @ [CHR ''='', LF] @ b)
       = replaceAll softBreak a @ replaceAll softBreak b"
    by (simp only: removeSoftBreaks_break)
  have u: "getTextDecoder ''utf-8'' = ''utf-8''" by code_simp
  have e1: "qpScan (replaceAll softBreak ''A=3DB'') = binaryBytes ''A=B''" by code_simp
  have e2: "qpScan (replaceAll softBreak (''A='' @ CRLF @ ''B'')) = binaryBytes ''AB''" by code_simp
  {
    assume "dec ''utf-8'' (binaryBytes ''A=B'') = ''A=B''"
    then show "decodeQuotedPrintable dec ''A=3DB'' ''utf-8'' = ''A=B''"
      by (simp only: r u e1)
  }
  {
    assume "dec ''utf-8'' (binaryBytes ''AB'') = ''AB''"
    then show "decodeQuotedPrintable dec (''A='' @ CRLF @ ''B'') ''utf-8'' = ''AB''"
      by (simp only: r u e2)
  }
  assume "isHexDigit h1 \<and> isHexDigit h2"
  then show "qpScan (s @ [CHR ''='', h1, h2])
            = qpScan s @ [of_int (16 * hexValue h1 + hexValue h2)]"
    by (simp add: qpScan_final_pair)
qed

theorem quoted_printable_decoding_witness:
  "decodeQuotedPrintable plainDecoder ''A=3DB'' ''utf-8'' = ''A=B''
   \<and> decodeQuotedPrintable plainDecoder (''A='' @ CRLF @ ''B'') ''utf-8'' = ''AB''
   \<and> qpScan (''A'' @ [CHR ''='', CHR ''3'', CHR ''D''])
       = qpScan ''A'' @ [of_int (16 * hexValue CHR ''3'' + hexValue CHR ''D'')]
   \<and> qpScan ''A=3D'' = [0x41, 0x3D]"
proof -
  have h1: "plainDecoder ''utf-8'' (binaryBytes ''A=B'') = ''A=B''" by code_simp
  have h2: "plainDecoder ''utf-8'' (binaryBytes ''AB'') = ''AB''" by code_simp
  have h3: "isHexDigit CHR ''3'' \<and> isHexDigit CHR ''D''" by code_simp
  have v: "qpScan ''A=3D'' = [0x41, 0x3D]" by code_simp
  note t = quoted_printable_decoding
    [of plainDecoder _ _ _ _ "CHR ''3''" "CHR ''D''" "''A''"]
  from t [THEN conjunct2, THEN conjunct2, THEN conjunct2, THEN conjunct1, THEN mp, OF h3]
    t [THEN conjunct2, THEN conjunct2, THEN conjunct2, THEN conjunct2, THEN conjunct1, THEN mp, OF h1]
    t [THEN conjunct2, THEN conjunct2, THEN conjunct2, THEN conjunct2, THEN conjunct2, THEN mp, OF h2]
    v
  show ?thesis by blast
qed

subsection \<open>Headers\<close>

lemma lowerChar_idem: "lowerChar (lowerChar c) = lowerChar c"
  using charCode_range [of c]
  by (auto simp: lowerChar_def Let_def charCode_def)






















subsection \<open>The file name of an attachment\<close>

lemma replaceAll_no_match:
  "(\<And>k. m (drop k s) = None) \<Longrightarrow> replaceAll m s = s"
proof (induction s)
  case Nil
  show ?case by simp
next
  case (Cons c cs)
  have "m (c # cs) = None" using Cons.prems [of 0] by simp
  moreover have "replaceAll m cs = cs"
  proof (rule Cons.IH)
    fix k show "m (drop k cs) = None" using Cons.prems [of "Suc k"] by simp
  qed
  ultimately show ?case by simp
qed

lemma mimeRegex_start: "\<not> startsWith s ''=?'' \<Longrightarrow> mimeRegex dec s = None"
  by (simp add: mimeRegex_def encodedWord_def)

lemma decodeMimeHeader_plain:
  assumes "\<not> includesStr s ''=?''"
  shows "decodeMimeHeader dec s = s"
proof -
  have "mimeRegex dec (drop k s) = None" for k
    using assms by (intro mimeRegex_start) (auto simp: includesStr_iff)
  then have "replaceAll (mimeRegex dec) s = s" by (rule replaceAll_no_match)
  then show ?thesis by (simp add: decodeMimeHeader_def)
qed

lemma paramAt_subset: "paramAt name ok s = Some v \<Longrightarrow> set v \<subseteq> set s"
proof -
  assume a: "paramAt name ok s = Some v"
  let ?r = "drop (length name) s"
  from a have v: "v = takeWhile ok (case ?r of [] \<Rightarrow> [] | q # r \<Rightarrow> if isQuote q then r else q # r)"
    by (simp add: paramAt_def Let_def split: if_splits)
  have "set (case ?r of [] \<Rightarrow> [] | q # r \<Rightarrow> if isQuote q then r else q # r) \<subseteq> set ?r"
    by (cases ?r) auto
  then have "set v \<subseteq> set ?r"
    unfolding v using set_takeWhileD by fastforce
  then show ?thesis using set_drop_subset by fastforce
qed

lemma paramMatch_subset: "paramMatch name ok s = Some v \<Longrightarrow> set v \<subseteq> set s"
proof (induction s)
  case Nil
  then show ?case by simp
next
  case (Cons c cs)
  then show ?case
    using paramAt_subset [of name ok "c # cs" v]
    by (cases "paramAt name ok (c # cs)") auto
qed

lemma paramMatch_lower:
  assumes "paramMatch name ok (toLowerCase d) = Some f"
  shows "toLowerCase f = f"
proof -
  have "lowerChar c = c" if "c \<in> set f" for c
  proof -
    from that paramMatch_subset [OF assms] have "c \<in> set (toLowerCase d)" by blast
    then obtain c' where "c = lowerChar c'" by (auto simp: toLowerCase_def)
    then show ?thesis by (simp add: lowerChar_idem)
  qed
  then show ?thesis by (simp add: toLowerCase_def map_idI)
qed

lemma bodyPart_attachment:
  assumes "includesStr (toLowerCase (headerOr (partHeaders part) ''content-disposition'' [])) ''attachment''"
  shows "attachments (bodyPart dec part r)
       = attachments r
         @ [attachmentOf dec part
              (toLowerCase (headerOr (partHeaders part) ''content-disposition'' []))
              (toLowerCase (headerOr (partHeaders part) ''content-type'' []))
              (headerOr (partHeaders part) ''content-transfer-encoding'' [])]"
  using assms by (simp add: bodyPart_def Let_def)

lemma attachmentOf_filename:
  "att_filename (attachmentOf dec part disposition partType transferEncoding)
     = decodeMimeHeader dec
         (case paramMatch ''filename='' filenameChar disposition of
            Some f \<Rightarrow> f | None \<Rightarrow> ''attachment'')"
  by (simp add: attachmentOf_def Let_def)

text \<open>
  Claim C9, as amended. For every attachment part, the \<^verbatim>\<open>filename=\<close> attribute is taken
  from the Content-Disposition value after that value has been lower-cased, so the text
  taken from the header has no upper-case letter; the file name of the result is this
  text passed through the decoder of encoded words: it is the text itself, lower-cased,
  when the text holds no \<^verbatim>\<open>=?\<close>, and it is \<^verbatim>\<open>attachment\<close> when there is no
  \<^verbatim>\<open>filename=\<close> attribute.
\<close>

theorem attachment_filename_lower_cased:
  assumes "includesStr (toLowerCase (headerOr (partHeaders part) ''content-disposition'' [])) ''attachment''"
  shows "length (attachments (bodyPart dec part r)) = Suc (length (attachments r))
     \<and> (paramMatch ''filename='' filenameChar
           (toLowerCase (headerOr (partHeaders part) ''content-disposition'' [])) = Some f
         \<longrightarrow> toLowerCase f = f
             \<and> att_filename (last (attachments (bodyPart dec part r))) = decodeMimeHeader dec f
             \<and> (\<not> includesStr f ''=?''
                  \<longrightarrow> att_filename (last (attachments (bodyPart dec part r))) = f))
     \<and> (paramMatch ''filename='' filenameChar
           (toLowerCase (headerOr (partHeaders part) ''content-disposition'' [])) = None
         \<longrightarrow> att_filename (last (attachments (bodyPart dec part r))) = ''attachment'')"
proof -
  let ?d = "toLowerCase (headerOr (partHeaders part) ''content-disposition'' [])"
  let ?a = "last (attachments (bodyPart dec part r))"
  note b = bodyPart_attachment [OF assms, of dec r]
  have n: "att_filename ?a
      = decodeMimeHeader dec
         (case paramMatch ''filename='' filenameChar ?d of
            Some f \<Rightarrow> f | None \<Rightarrow> ''attachment'')"
    by (simp add: b attachmentOf_filename)
  have p: "decodeMimeHeader dec ''attachment'' = ''attachment''"
    by code_simp
  show ?thesis
  proof (intro conjI impI)
    show "length (attachments (bodyPart dec part r)) = Suc (length (attachments r))"
      by (simp add: b)
  next
    assume "paramMatch ''filename='' filenameChar ?d = Some f"
    then show "toLowerCase f = f" by (rule paramMatch_lower)
  next
    assume "paramMatch ''filename='' filenameChar ?d = Some f"
    then show "att_filename ?a = decodeMimeHeader dec f" by (simp add: n)
  next
    assume "paramMatch ''filename='' filenameChar ?d = Some f" and "\<not> includesStr f ''=?''"
    then show "att_filename ?a = f" by (simp add: n decodeMimeHeader_plain)
  next
    assume "paramMatch ''filename='' filenameChar ?d = None"
    then show "att_filename ?a = ''attachment''" by (simp add: n p)
  qed
qed

text \<open>The claim as it was written fails: an encoded word that is left in the lower-cased
  value is decoded afterwards, and the file name of the result has a capital letter.\<close>

theorem attachment_filename_counterexample:
  "map att_filename
     (attachments (parseBody plainDecoder encodedFilenameExample ''multipart/mixed; boundary=xyz'' []))
     = [''A.txt'']
   \<and> toLowerCase ''A.txt'' \<noteq> ''A.txt''"
  by code_simp


theorem attachment_filename_lower_cased_witness:
  "att_filename (last (attachments (bodyPart plainDecoder attachmentPartExample noResult)))
     = ''report.pdf''
   \<and> length (attachments (bodyPart plainDecoder attachmentPartExample noResult)) = 1"
proof -
  have h: "includesStr
      (toLowerCase (headerOr (partHeaders attachmentPartExample) ''content-disposition'' []))
      ''attachment''"
    by code_simp
  have m: "paramMatch ''filename='' filenameChar
      (toLowerCase (headerOr (partHeaders attachmentPartExample) ''content-disposition'' []))
      = Some ''report.pdf''"
    by code_simp
  have n: "\<not> includesStr ''report.pdf'' ''=?''"
    by code_simp
  have z: "attachments noResult = []" by (simp add: noResult_def)
  note t = attachment_filename_lower_cased [OF h, of plainDecoder noResult "''report.pdf''"]
  from t [THEN conjunct2, THEN conjunct1, THEN mp, OF m, THEN conjunct2, THEN conjunct2,
          THEN mp, OF n]
    t [THEN conjunct1] z
  show ?thesis by simp
qed

subsection \<open>Attachments in base64\<close>

lemma div_div_64: "(x::int) div 64 div 64 = x div 4096"
  using zdiv_zmult2_eq [of 64 x 64] by simp

lemma div_div_64': "(x::int) div 4096 div 64 = x div 262144"
  using zdiv_zmult2_eq [of 64 x 4096] by simp

lemma regroup4:
  "(((x::int) div 262144 * 64 + x div 4096 mod 64) * 64 + x div 64 mod 64) * 64 + x mod 64 = x"
proof -
  have "x div 262144 * 64 + x div 4096 mod 64 = x div 4096"
    using div_mult_mod_eq [of "x div 4096" 64] by (simp only: div_div_64')
  moreover have "x div 4096 * 64 + x div 64 mod 64 = x div 64"
    using div_mult_mod_eq [of "x div 64" 64] by (simp only: div_div_64)
  moreover have "x div 64 * 64 + x mod 64 = x"
    by (rule div_mult_mod_eq)
  ultimately show ?thesis by simp
qed

lemma bytes3:
  fixes a b c :: int
  assumes "0 \<le> a" "a < 256" "0 \<le> b" "b < 256" "0 \<le> c" "c < 256"
  shows "((a * 256 + b) * 256 + c) div 65536 = a"
    and "((a * 256 + b) * 256 + c) div 256 mod 256 = b"
    and "((a * 256 + b) * 256 + c) mod 256 = c"
    and "0 \<le> ((a * 256 + b) * 256 + c) div 262144"
    and "((a * 256 + b) * 256 + c) div 262144 < 64"
proof -
  let ?n = "(a * 256 + b) * 256 + c"
  have e: "?n = 256 * (a * 256 + b) + c" by simp
  have d: "?n div 256 = a * 256 + b"
    using e assms(5,6) by (rule int_div_pos_eq)
  show "?n mod 256 = c"
    using e assms(5,6) by (rule int_mod_pos_eq)
  have "a * 256 + b = 256 * a + b" by simp
  then have "(a * 256 + b) mod 256 = b" "(a * 256 + b) div 256 = a"
    using assms(3,4) by (rule int_mod_pos_eq, rule int_div_pos_eq)
  then show "?n div 256 mod 256 = b" by (simp only: d)
  have "?n div 65536 = ?n div 256 div 256"
    using zdiv_zmult2_eq [of 256 ?n 256] by simp
  then show "?n div 65536 = a"
    using \<open>(a * 256 + b) div 256 = a\<close> by (simp only: d)
  have "0 \<le> ?n" using assms by simp
  then show "0 \<le> ?n div 262144" by simp
  have "?n < 16777216" using assms by simp
  then show "?n div 262144 < 64" by simp
qed

lemma bytes2:
  fixes a b :: int
  assumes "0 \<le> a" "a < 256" "0 \<le> b" "b < 256"
  shows "(a * 256 + b) div 256 = a" and "(a * 256 + b) mod 256 = b"
    and "0 \<le> (a * 256 + b) * 4 div 4096" and "(a * 256 + b) * 4 div 4096 < 64"
    and "(a * 256 + b) * 4 div 4 = a * 256 + b"
proof -
  have "a * 256 + b = 256 * a + b" by simp
  then show "(a * 256 + b) div 256 = a" "(a * 256 + b) mod 256 = b"
    using assms(3,4) by (rule int_div_pos_eq, rule int_mod_pos_eq)
  have "0 \<le> (a * 256 + b) * 4" using assms by simp
  then show "0 \<le> (a * 256 + b) * 4 div 4096" by simp
  have "(a * 256 + b) * 4 < 262144" using assms by simp
  then show "(a * 256 + b) * 4 div 4096 < 64" by simp
  show "(a * 256 + b) * 4 div 4 = a * 256 + b" by simp
qed

lemma regroup3:
  "(((x::int) div 4096 * 64 + x div 64 mod 64) * 64 + x mod 64) = x"
proof -
  have "x div 4096 * 64 + x div 64 mod 64 = x div 64"
    using div_mult_mod_eq [of "x div 64" 64] by (simp only: div_div_64)
  moreover have "x div 64 * 64 + x mod 64 = x"
    by (rule div_mult_mod_eq)
  ultimately show ?thesis by simp
qed

lemma bytes1:
  fixes a :: int
  assumes "0 \<le> a" "a < 256"
  shows "0 \<le> a * 16 div 64" and "a * 16 div 64 < 64"
    and "(a * 16 div 64 * 64 + a * 16 mod 64) div 16 = a"
proof -
  show "0 \<le> a * 16 div 64" using assms by simp
  have "a * 16 < 4096" using assms by simp
  then show "a * 16 div 64 < 64" by simp
  have "a * 16 div 64 * 64 + a * 16 mod 64 = a * 16" by (rule div_mult_mod_eq)
  then show "(a * 16 div 64 * 64 + a * 16 mod 64) div 16 = a" by simp
qed

lemma charCode_char_of: "0 \<le> n \<Longrightarrow> n < 256 \<Longrightarrow> charCode (char_of n) = n"
  by (simp add: charCode_def)

lemma sextet_b64char: "0 \<le> n \<Longrightarrow> n < 64 \<Longrightarrow> sextet (b64char n) = Some n"
proof -
  assume a: "0 \<le> n" "n < 64"
  consider "n < 26" | "26 \<le> n" "n < 52" | "52 \<le> n" "n < 62" | "n = 62" | "n = 63"
    using a by linarith
  then show ?thesis
  proof cases
    case 1
    then have "charCode (b64char n) = n + 65"
      using a by (simp add: b64char_def charCode_char_of)
    then show ?thesis using 1 a by (simp add: sextet_def)
  next
    case 2
    then have "charCode (b64char n) = n + 71"
      using a by (simp add: b64char_def charCode_char_of)
    then show ?thesis using 2 a by (simp add: sextet_def)
  next
    case 3
    then have "charCode (b64char n) = n - 4"
      using a by (simp add: b64char_def charCode_char_of)
    then show ?thesis using 3 a by (simp add: sextet_def)
  next
    case 4
    then show ?thesis by (simp add: b64char_def sextet_def charCode_def)
  next
    case 5
    then show ?thesis by (simp add: b64char_def sextet_def charCode_def)
  qed
qed

lemma sextet_alphabet:
  assumes "sextet c = Some n"
  shows "\<not> isAsciiWhitespace c \<and> c \<noteq> CHR ''=''"
proof -
  have p: "charCode (CHR ''+'') = 43" "charCode (CHR ''/'') = 47" "charCode (CHR ''='') = 61"
    by (simp_all add: charCode_def)
  from assms have "43 \<le> charCode c \<and> charCode c \<noteq> 61"
    using p by (auto simp: sextet_def Let_def split: if_splits)
  then show ?thesis using p by (auto simp: isAsciiWhitespace_def)
qed

lemma uint8_range: "0 \<le> uint (b :: byte) \<and> uint b < 256"
  using uint_lt2p [of b] by simp

lemma mod64_range: "0 \<le> (x::int) mod 64 \<and> x mod 64 < 64"
  by simp

lemma sextetBytes_groups:
  "sextetBytes (map (\<lambda>c. the (sextet c)) (base64Groups bytes)) = map uint bytes"
proof (induction bytes rule: base64Groups.induct)
  case (1 a b c rest)
  let ?n = "(uint a * 256 + uint b) * 256 + uint c"
  note r = uint8_range [of a] uint8_range [of b] uint8_range [of c]
  note b3 = bytes3 [of "uint a" "uint b" "uint c"]
  have s: "the (sextet (b64char (?n div 262144))) = ?n div 262144"
    "the (sextet (b64char (?n div 4096 mod 64))) = ?n div 4096 mod 64"
    "the (sextet (b64char (?n div 64 mod 64))) = ?n div 64 mod 64"
    "the (sextet (b64char (?n mod 64))) = ?n mod 64"
    using r b3(4,5) by (simp_all add: sextet_b64char)
  have "sextetBytes (map (\<lambda>c. the (sextet c)) (base64Groups (a # b # c # rest)))
      = [?n div 65536, ?n div 256 mod 256, ?n mod 256]
        @ sextetBytes (map (\<lambda>c. the (sextet c)) (base64Groups rest))"
    by (simp only: base64Groups.simps Let_def map_append list.map s sextetBytes.simps
          append_Cons append_Nil regroup4)
  also have "\<dots> = map uint (a # b # c # rest)"
    using r b3(1,2,3) 1 by simp
  finally show ?case .
next
  case (2 a b)
  let ?m = "uint a * 256 + uint b"
  let ?n = "?m * 4"
  note r = uint8_range [of a] uint8_range [of b]
  note b2 = bytes2 [of "uint a" "uint b"]
  have s: "the (sextet (b64char (?n div 4096))) = ?n div 4096"
    "the (sextet (b64char (?n div 64 mod 64))) = ?n div 64 mod 64"
    "the (sextet (b64char (?n mod 64))) = ?n mod 64"
    using r b2(3,4) by (simp_all add: sextet_b64char)
  have "sextetBytes (map (\<lambda>c. the (sextet c)) (base64Groups [a, b]))
      = [?n div 4 div 256, ?n div 4 mod 256]"
    by (simp only: base64Groups.simps Let_def list.map s sextetBytes.simps regroup3)
  also have "\<dots> = map uint [a, b]"
    using r b2(1,2,5) by simp
  finally show ?case .
next
  case (3 a)
  note r = uint8_range [of a]
  note b1 = bytes1 [of "uint a"]
  have s: "the (sextet (b64char (uint a * 16 div 64))) = uint a * 16 div 64"
    "the (sextet (b64char (uint a * 16 mod 64))) = uint a * 16 mod 64"
    using r b1(1,2) by (simp_all add: sextet_b64char)
  have "sextetBytes (map (\<lambda>c. the (sextet c)) (base64Groups [a]))
      = [(uint a * 16 div 64 * 64 + uint a * 16 mod 64) div 16]"
    by (simp only: base64Groups.simps Let_def list.map s sextetBytes.simps)
  also have "\<dots> = map uint [a]"
    using r b1(3) by simp
  finally show ?case .
next
  case 4
  show ?case by simp
qed

lemma endsWith_iff: "endsWith s p \<longleftrightarrow> (\<exists>t. s = t @ p)"
proof
  assume "endsWith s p"
  then have "drop (length s - length p) s = p" by (simp add: endsWith_def)
  then have "s = take (length s - length p) s @ p"
    by (metis append_take_drop_id)
  then show "\<exists>t. s = t @ p" ..
next
  assume "\<exists>t. s = t @ p"
  then show "endsWith s p" by (auto simp: endsWith_def)
qed

lemma stripPadding_pad:
  assumes "CHR ''='' \<notin> set g" and "p \<le> 2"
  shows "stripPadding (g @ replicate p (CHR ''='')) = g"
proof -
  have no: "\<not> endsWith g (q @ ''='')" for q
  proof
    assume "endsWith g (q @ ''='')"
    then obtain t where "g = t @ q @ ''=''" by (auto simp: endsWith_iff)
    then have "CHR ''='' \<in> set g" by simp
    with assms(1) show False ..
  qed
  consider "p = 0" | "p = 1" | "p = 2" using assms(2) by linarith
  then show ?thesis
  proof cases
    case 1
    have "\<not> endsWith g ''==''" "\<not> endsWith g ''=''"
      using no [of "''=''"] no [of "[]"] by simp_all
    then show ?thesis using 1 by (simp add: stripPadding_def)
  next
    case 2
    have "\<not> endsWith (g @ ''='') ''==''"
    proof
      assume "endsWith (g @ ''='') ''==''"
      then obtain t where "g @ ''='' = (t @ ''='') @ ''=''" by (auto simp: endsWith_iff)
      then have "g = t @ ''=''" by (simp only: append1_eq_conv)
      then have "endsWith g ([] @ ''='')" by (simp add: endsWith_iff)
      with no show False by blast
    qed
    moreover have "endsWith (g @ ''='') ''=''" by (simp add: endsWith_iff)
    ultimately show ?thesis using 2 by (simp add: stripPadding_def)
  next
    case 3
    have "endsWith (g @ ''=='') ''==''" by (simp add: endsWith_iff)
    then show ?thesis using 3 by (simp add: stripPadding_def numeral_2_eq_2)
  qed
qed

lemma base64Groups_length:
  "length (base64Groups bytes) mod 4 \<noteq> 1
   \<and> (length (base64Groups bytes) + (3 - length bytes mod 3) mod 3) mod 4 = 0"
proof (induction bytes rule: base64Groups.induct)
  case (1 a b c rest)
  have "length (a # b # c # rest) = length rest + 3" by simp
  then have m: "length (a # b # c # rest) mod 3 = length rest mod 3"
    by (simp only: mod_add_self2)
  have l: "length (base64Groups (a # b # c # rest)) = length (base64Groups rest) + 4"
    by (simp add: Let_def)
  have "(x + 4) mod 4 = x mod 4" "(x + 4 + p) mod 4 = (x + p) mod 4" for x p :: nat
    by presburger+
  then show ?case unfolding m l using 1 by simp
next
  case (2 a b)
  show ?case by (simp add: Let_def)
next
  case (3 a)
  show ?case by (simp add: Let_def)
next
  case 4
  show ?case by simp
qed

lemma pad_le: "(3 - n mod 3) mod 3 \<le> (2::nat)"
proof -
  have "(3 - n mod 3) mod 3 < (3::nat)" by simp
  then show ?thesis by linarith
qed

lemma base64Groups_alphabet:
  "c \<in> set (base64Groups bytes) \<Longrightarrow> sextet c \<noteq> None"
proof (induction bytes rule: base64Groups.induct)
  case (1 a b c' rest)
  let ?n = "(uint a * 256 + uint b) * 256 + uint c'"
  note r = uint8_range [of a] uint8_range [of b] uint8_range [of c']
  note b3 = bytes3 [of "uint a" "uint b" "uint c'"]
  have s: "sextet (b64char (?n div 262144)) \<noteq> None"
    "sextet (b64char (?n div 4096 mod 64)) \<noteq> None"
    "sextet (b64char (?n div 64 mod 64)) \<noteq> None"
    "sextet (b64char (?n mod 64)) \<noteq> None"
    using r b3(4,5) by (simp_all add: sextet_b64char)
  from "1.prems" have "c \<in> {b64char (?n div 262144), b64char (?n div 4096 mod 64),
      b64char (?n div 64 mod 64), b64char (?n mod 64)} \<or> c \<in> set (base64Groups rest)"
    by (simp add: Let_def)
  then show ?case using s "1.IH" by blast
next
  case (2 a b)
  let ?n = "(uint a * 256 + uint b) * 4"
  note r = uint8_range [of a] uint8_range [of b]
  note b2 = bytes2 [of "uint a" "uint b"]
  have s: "sextet (b64char (?n div 4096)) \<noteq> None"
    "sextet (b64char (?n div 64 mod 64)) \<noteq> None"
    "sextet (b64char (?n mod 64)) \<noteq> None"
    using r b2(3,4) by (simp_all add: sextet_b64char)
  from 2 have "c \<in> {b64char (?n div 4096), b64char (?n div 64 mod 64), b64char (?n mod 64)}"
    by (simp add: Let_def)
  then show ?case using s by blast
next
  case (3 a)
  note r = uint8_range [of a]
  note b1 = bytes1 [of "uint a"]
  have s: "sextet (b64char (uint a * 16 div 64)) \<noteq> None"
    "sextet (b64char (uint a * 16 mod 64)) \<noteq> None"
    using r b1(1,2) by (simp_all add: sextet_b64char)
  from 3 have "c \<in> {b64char (uint a * 16 div 64), b64char (uint a * 16 mod 64)}"
    by (simp add: Let_def)
  then show ?case using s by blast
next
  case 4
  then show ?case by simp
qed

lemma atob_base64Encode:
  "atob (base64Encode bytes) = Some (map (\<lambda>b. char_of (uint b)) bytes)"
proof -
  let ?g = "base64Groups bytes"
  let ?p = "(3 - length bytes mod 3) mod 3"
  have alpha: "sextet c \<noteq> None" if "c \<in> set ?g" for c
    using that by (rule base64Groups_alphabet)
  have noeq: "CHR ''='' \<notin> set ?g"
  proof
    assume "CHR ''='' \<in> set ?g"
    then obtain n where "sextet (CHR ''='') = Some n" using alpha by blast
    then show False using sextet_alphabet by blast
  qed
  have "\<not> isAsciiWhitespace c" if "c \<in> set (base64Encode bytes)" for c
  proof (cases "c \<in> set ?g")
    case True
    then obtain n where "sextet c = Some n" using alpha by blast
    then show ?thesis using sextet_alphabet by blast
  next
    case False
    with that have "c = CHR ''=''" by (auto simp: base64Encode_def)
    then show ?thesis by (simp add: isAsciiWhitespace_def charCode_def)
  qed
  then have d1: "filter (\<lambda>c. \<not> isAsciiWhitespace c) (base64Encode bytes) = base64Encode bytes"
    by (simp add: filter_id_conv)
  have len: "length (base64Encode bytes) mod 4 = 0"
    using base64Groups_length [of bytes] by (simp add: base64Encode_def)
  have d2: "stripPadding (base64Encode bytes) = ?g"
    unfolding base64Encode_def using noeq pad_le by (rule stripPadding_pad)
  have l1: "length ?g mod 4 \<noteq> 1"
    using base64Groups_length [of bytes] by simp
  have ok: "\<not> (\<exists>c \<in> set ?g. sextet c = None)"
    using alpha by blast
  have "atob (base64Encode bytes)
      = Some (map char_of (sextetBytes (map (\<lambda>c. the (sextet c)) ?g)))"
    unfolding atob_def d1 Let_def len d2 using l1 ok by simp
  then show ?thesis by (simp add: sextetBytes_groups comp_def)
qed

lemma binaryBytes_chars:
  "binaryBytes (map (\<lambda>b. char_of (uint b)) bytes) = bytes"
proof -
  have "(word_of_int (charCode (char_of (uint b))) :: byte) = b" for b :: byte
    using uint8_range [of b] by (simp add: charCode_char_of)
  then show ?thesis by (simp add: binaryBytes_def comp_def map_idI)
qed

lemma decodeBase64ToBinary_encoded:
  "removeWhiteSpace str = base64Encode bytes \<Longrightarrow> decodeBase64ToBinary str = bytes"
  by (simp add: decodeBase64ToBinary_def atob_base64Encode binaryBytes_chars)

lemma attachmentOf_base64:
  assumes "includesStr (toLowerCase transferEncoding) ''base64''"
  shows "att_content (attachmentOf dec part disposition partType transferEncoding)
           = decodeBase64ToBinary (partBody part)
         \<and> att_size (attachmentOf dec part disposition partType transferEncoding)
           = length (decodeBase64ToBinary (partBody part))"
  using assms by (simp add: attachmentOf_def Let_def)

text \<open>
  Claim C1. For every part whose Content-Disposition contains \<^verbatim>\<open>attachment\<close> and whose
  Content-Transfer-Encoding contains \<^verbatim>\<open>base64\<close>, the content of the attachment is the
  byte sequence that base64 decoding gives for the body of the part, byte for byte and
  whatever the text decoder is, and its size is the number of these bytes, not the
  length of the encoded text: the content is what \<^verbatim>\<open>atob\<close> returns for the body
  without its white space, and for a body that is the base64 encoding of a byte sequence
  (with white space anywhere) the content is that byte sequence.
\<close>

theorem base64_attachment_bytes:
  assumes "includesStr (toLowerCase (headerOr (partHeaders part) ''content-disposition'' [])) ''attachment''"
    and "includesStr (toLowerCase (headerOr (partHeaders part) ''content-transfer-encoding'' [])) ''base64''"
  shows "length (attachments (bodyPart dec part r)) = Suc (length (attachments r))
     \<and> att_size (last (attachments (bodyPart dec part r)))
         = length (att_content (last (attachments (bodyPart dec part r))))
     \<and> (atob (removeWhiteSpace (partBody part)) = Some binary
         \<longrightarrow> att_content (last (attachments (bodyPart dec part r))) = binaryBytes binary
             \<and> att_size (last (attachments (bodyPart dec part r))) = length binary)
     \<and> (removeWhiteSpace (partBody part) = base64Encode bytes
         \<longrightarrow> att_content (last (attachments (bodyPart dec part r))) = bytes
             \<and> att_size (last (attachments (bodyPart dec part r))) = length bytes)"
proof -
  let ?a = "last (attachments (bodyPart dec part r))"
  note b = bodyPart_attachment [OF assms(1), of dec r]
  note c = attachmentOf_base64 [OF assms(2), of dec part]
  have content: "att_content ?a = decodeBase64ToBinary (partBody part)"
    and size: "att_size ?a = length (decodeBase64ToBinary (partBody part))"
    by (simp_all add: b c)
  show ?thesis
  proof (intro conjI impI)
    show "length (attachments (bodyPart dec part r)) = Suc (length (attachments r))"
      by (simp add: b)
    show "att_size ?a = length (att_content ?a)"
      by (simp only: content size)
  next
    assume "atob (removeWhiteSpace (partBody part)) = Some binary"
    then have "decodeBase64ToBinary (partBody part) = binaryBytes binary"
      by (simp add: decodeBase64ToBinary_def)
    then show "att_content ?a = binaryBytes binary" "att_size ?a = length binary"
      by (simp_all add: content size binaryBytes_def)
  next
    assume "removeWhiteSpace (partBody part) = base64Encode bytes"
    then have "decodeBase64ToBinary (partBody part) = bytes"
      by (rule decodeBase64ToBinary_encoded)
    then show "att_content ?a = bytes" "att_size ?a = length bytes"
      by (simp_all add: content size)
  qed
qed

theorem base64_attachment_bytes_witness:
  "att_content (last (attachments (bodyPart plainDecoder attachmentPartExample noResult)))
     = [0x41, 0x42, 0x43, 0x44]
   \<and> att_size (last (attachments (bodyPart plainDecoder attachmentPartExample noResult))) = 4
   \<and> length (partBody attachmentPartExample) = 10"
proof -
  have h1: "includesStr
      (toLowerCase (headerOr (partHeaders attachmentPartExample) ''content-disposition'' []))
      ''attachment''"
    by code_simp
  have h2: "includesStr
      (toLowerCase (headerOr (partHeaders attachmentPartExample) ''content-transfer-encoding'' []))
      ''base64''"
    by code_simp
  have h3: "removeWhiteSpace (partBody attachmentPartExample)
      = base64Encode [0x41, 0x42, 0x43, 0x44]"
    by code_simp
  have l: "length (partBody attachmentPartExample) = 10"
    by code_simp
  from base64_attachment_bytes
    [OF h1 h2, of plainDecoder noResult _ "[0x41, 0x42, 0x43, 0x44]",
     THEN conjunct2, THEN conjunct2, THEN conjunct2, THEN mp, OF h3] l
  show ?thesis by simp
qed

subsection \<open>The branches of the decoder of encoded words\<close>

text \<open>The expression admits the letters B and Q only, in either case, so the branch that
  returns the token as it was is never taken; and a B-encoded word whose text
  \<^verbatim>\<open>atob\<close> rejects is replaced by that text.\<close>

lemma foldChar_bq:
  "foldChar e \<in> set ''bq'' \<Longrightarrow> map upperChar [e] = ''B'' \<or> map upperChar [e] = ''Q''"
proof -
  assume a: "foldChar e \<in> set ''bq''"
  have c: "charCode (CHR ''b'') = 98" "charCode (CHR ''q'') = 113"
    "char_of (66 :: int) = CHR ''B''" "char_of (81 :: int) = CHR ''Q''"
    by (simp_all add: charCode_def char_of_def)
  have r: "0 \<le> charCode e \<and> charCode e < 256"
    by (rule charCode_range)
  have i: "x = y" if "charCode x = charCode y" for x y
    using that by (simp add: charCode_def)
  have u: "charCode (CHR ''B'') = 66" "charCode (CHR ''Q'') = 81"
    by (simp_all add: charCode_def)
  have up: "upperChar (CHR ''b'') = CHR ''B''" "upperChar (CHR ''B'') = CHR ''B''"
    "upperChar (CHR ''q'') = CHR ''Q''" "upperChar (CHR ''Q'') = CHR ''Q''"
    by (simp_all add: upperChar_def charCode_def char_of_def)
  from a consider "foldChar e = CHR ''b''" | "foldChar e = CHR ''q''" by auto
  then show ?thesis
  proof cases
    case 1
    then have "charCode (foldChar e) = 98" by (simp add: c)
    then have "charCode e = 66 \<or> charCode e = 98"
      using r by (auto simp: foldChar_def Let_def charCode_def split: if_splits)
    then have "e = CHR ''B'' \<or> e = CHR ''b''"
      using i [of e "CHR ''B''"] i [of e "CHR ''b''"] by (auto simp: u c)
    then show ?thesis by (auto simp: up)
  next
    case 2
    then have "charCode (foldChar e) = 113" by (simp add: c)
    then have "charCode e = 81 \<or> charCode e = 113"
      using r by (auto simp: foldChar_def Let_def charCode_def split: if_splits)
    then have "e = CHR ''Q'' \<or> e = CHR ''q''"
      using i [of e "CHR ''Q''"] i [of e "CHR ''q''"] by (auto simp: u c)
    then show ?thesis by (auto simp: up)
  qed
qed

lemma encodedWord_encoding:
  "encodedWord s = Some (charset, encoding, text, rest)
   \<Longrightarrow> map upperChar encoding = ''B'' \<or> map upperChar encoding = ''Q''"
proof -
  assume a: "encodedWord s = Some (charset, encoding, text, rest)"
  then obtain e where "encoding = [e]" "foldChar e \<in> set ''bq''"
    by (auto simp: encodedWord_def Let_def split: if_splits list.splits)
  then show ?thesis using foldChar_bq by blast
qed

lemma decodeWord_failed_base64:
  "atob (removeWhiteSpace text) = None \<Longrightarrow> decodeWord dec match charset ''B'' text = text"
  by (simp add: decodeWord_def decodeBase64_def upperChar_def charCode_def)

end
